theory Spec2Isabelle
  imports Main "HOL-Library.Sublist" "HOL-Library.Char_ord" "HOL-Library.List_Lexorder"
begin

section \<open>The markup document engine of chisel\<close>

text \<open>
  A shallow embedding of the two header-only libraries of the repository that make up the
  markup engine: namespace \<open>html\<close> (entity codec, tag-tree node, serializer and strict
  parser) and namespace \<open>markdown\<close> (AST node, block parser, inline tokenizer and the two
  serializers).  A \<open>std::string\<close> is a \<^typ>\<open>string\<close> (a list of bytes), a cursor
  \<open>pos\<close> into a string or into the vector of lines is the suffix that starts at \<open>pos\<close>,
  and an exception is the \<open>Inl\<close> branch of a sum.
\<close>

subsection \<open>Entity codec (\<open>html::escape_html\<close>, \<open>html::unescape_html\<close>)\<close>

text \<open>The \<open>switch\<close> of \<open>escape_html\<close>, one input character at a time, appended to the result.\<close>

fun escape_html :: "string \<Rightarrow> string" where
  "escape_html [] = []"
| "escape_html (c # cs) =
     (if c = CHR ''&'' then ''&amp;''
      else if c = CHR ''<'' then ''&lt;''
      else if c = CHR ''>'' then ''&gt;''
      else if c = CHR 0x22 then ''&quot;''
      else if c = CHR 0x27 then ''&#39;''
      else [c]) @ escape_html cs"

text \<open>
  \<open>unescape_html\<close>: the argument is the input from index \<open>i\<close> on, so that
  \<open>input.substr(i, n)\<close> is \<open>take n\<close> of it; \<open>i += n - 1\<close> followed by the loop's
  \<open>++i\<close> drops \<open>n\<close> characters.
\<close>

fun unescape_html :: "string \<Rightarrow> string" where
  "unescape_html [] = []"
| "unescape_html (c # cs) =
     (if c = CHR ''&'' then
        (if take 5 (c # cs) = ''&amp;'' then CHR ''&'' # unescape_html (drop 4 cs)
         else if take 4 (c # cs) = ''&lt;'' then CHR ''<'' # unescape_html (drop 3 cs)
         else if take 4 (c # cs) = ''&gt;'' then CHR ''>'' # unescape_html (drop 3 cs)
         else if take 6 (c # cs) = ''&quot;'' then CHR 0x22 # unescape_html (drop 5 cs)
         else if take 5 (c # cs) = ''&#39;'' then CHR 0x27 # unescape_html (drop 4 cs)
         else c # unescape_html cs)
      else c # unescape_html cs)"

text \<open>The five entity sequences, and the alphabet of the codec's round-trip property.\<close>

definition entities :: "string list" where
  "entities = [''&amp;'', ''&lt;'', ''&gt;'', ''&quot;'', ''&#39;'']"

definition codec_alphabet :: "char set" where
  "codec_alphabet =
     set (''&<>'' @ [CHR 0x22, CHR 0x27] @ ''abcdefghijklmnopqrstuvwxyz''
          @ ''ABCDEFGHIJKLMNOPQRSTUVWXYZ'' @ ''0123456789 '')"

subsection \<open>\<open>std::map<std::string, std::string>\<close>\<close>

text \<open>
  A \<open>std::map\<close> is kept as an association list in the order in which the map is
  iterated: ascending keys (byte-wise lexicographic, as \<open>std::string::operator<\<close>), no
  key twice (\<open>map_inv\<close>).  \<open>map_set k v m\<close> is the assignment \<open>m[k] = v\<close>, \<open>map_of m k\<close>
  is \<open>m.find(k)\<close> / \<open>m.count(k)\<close> / \<open>m.at(k)\<close>.
\<close>

type_synonym attr_map = "(string \<times> string) list"

fun map_set :: "string \<Rightarrow> string \<Rightarrow> attr_map \<Rightarrow> attr_map" where
  "map_set k v [] = [(k, v)]"
| "map_set k v ((k', v') # m) =
     (if k < k' then (k, v) # (k', v') # m
      else if k = k' then (k, v) # m
      else (k', v') # map_set k v m)"

definition map_inv :: "attr_map \<Rightarrow> bool" where
  "map_inv m \<longleftrightarrow> sorted (map fst m) \<and> distinct (map fst m)"

text \<open>The map after the assignments \<open>m[k] = v\<close> of a list, made in its order on an empty map.\<close>

definition assignments :: "(string \<times> string) list \<Rightarrow> attr_map" where
  "assignments kvs = fold (\<lambda>kv. map_set (fst kv) (snd kv)) kvs []"

subsection \<open>Tag tree (\<open>html::Node\<close>) and its serializer\<close>

datatype html_Node = html_Node (h_tag: string) (h_text: string) (h_attributes: attr_map)
  (h_children: "html_Node list")

text \<open>
  \<open>std::string::find(const char*)\<close>: the first index at which the pattern occurs, \<open>None\<close>
  for \<open>npos\<close>.
\<close>

fun starts_at :: "string \<Rightarrow> string \<Rightarrow> bool" where
  "starts_at [] s = True"
| "starts_at (p # ps) [] = False"
| "starts_at (p # ps) (c # cs) = (p = c \<and> starts_at ps cs)"

fun str_find :: "string \<Rightarrow> string \<Rightarrow> nat option" where
  "str_find [] p = (if p = [] then Some 0 else None)"
| "str_find (c # cs) p =
     (if starts_at p (c # cs) then Some 0 else map_option Suc (str_find cs p))"

definition self_closing_tags :: "string set" where
  "self_closing_tags = {''img'', ''hr'', ''br''}"

definition inline_tags :: "string set" where
  "inline_tags = {''strong'', ''em'', ''a'', ''code'', ''span''}"

definition render_attribute :: "string \<times> string \<Rightarrow> string" where
  "render_attribute kv = '' '' @ fst kv @ ''='' @ [CHR 0x22] @ escape_html (snd kv) @ [CHR 0x22]"

text \<open>
  \<open>html::Serializer::serialize\<close>.  The result is what the function writes to its
  \<open>ostringstream\<close>.  \<open>indent_level\<close> is \<open>0\<close> at the public entry and only ever incremented,
  hence a natural number.
\<close>

fun serialize :: "html_Node \<Rightarrow> nat \<Rightarrow> string" where
  "serialize (html_Node tag text attributes children) indent_level =
     (let indent = replicate (indent_level * 2) CHR '' '' in
      if tag \<noteq> [] then
        (let opening = indent @ ''<'' @ tag @ concat (map render_attribute attributes) in
         if tag \<in> self_closing_tags then opening @ '' />''
         else
           (let body_text =
                  (if text \<noteq> [] then
                     (case map_of attributes ''class'' of
                        None \<Rightarrow> escape_html text
                      | Some class_attr \<Rightarrow>
                          if tag = ''code'' \<and> class_attr \<noteq> []
                             \<and> str_find class_attr ''language-'' = Some 0
                          then text else escape_html text)
                   else []);
                is_inline = (tag \<in> inline_tags);
                body_children =
                  concat (map (\<lambda>child. (if \<not> is_inline then ''\<newline>'' else [])
                      @ serialize child (if is_inline then 0 else indent_level + 1)) children);
                closing = (if children \<noteq> [] \<and> \<not> is_inline then ''\<newline>'' @ indent else [])
                      @ ''</'' @ tag @ ''>''
            in opening @ ''>'' @ body_text @ body_children @ closing))
      else if text \<noteq> [] then indent @ escape_html text
      else [])"

subsection \<open>Tag-tree parser (\<open>html::Deserializer\<close>)\<close>

text \<open>
  The exceptions thrown by the engine: \<open>std::invalid_argument\<close> with its message (the
  parser's only error kind), \<open>std::out_of_range\<close> (from \<open>std::map::at\<close>) and
  \<open>std::length_error\<close> (from \<open>std::string(count, ch)\<close> with a negative count).
\<close>

datatype error = invalid_argument string | out_of_range | length_error

text \<open>\<open>std::isspace\<close> and \<open>std::tolower\<close> in the "C" locale.\<close>

definition isspace :: "char \<Rightarrow> bool" where
  "isspace c \<longleftrightarrow> c \<in> {CHR '' '', CHR 0x09, CHR 0x0A, CHR 0x0B, CHR 0x0C, CHR 0x0D}"

definition tolower :: "char \<Rightarrow> char" where
  "tolower c =
     (case map_of (zip ''ABCDEFGHIJKLMNOPQRSTUVWXYZ'' ''abcdefghijklmnopqrstuvwxyz'') c of
        Some l \<Rightarrow> l
      | None \<Rightarrow> c)"

definition skip_whitespace :: "string \<Rightarrow> string" where
  "skip_whitespace html = dropWhile isspace html"

definition is_tag_char :: "char \<Rightarrow> bool" where
  "is_tag_char c \<longleftrightarrow> c \<noteq> CHR '' '' \<and> c \<noteq> CHR ''>'' \<and> c \<noteq> CHR ''/''"

definition is_key_char :: "char \<Rightarrow> bool" where
  "is_key_char c \<longleftrightarrow> c \<noteq> CHR ''='' \<and> c \<noteq> CHR ''>'' \<and> c \<noteq> CHR ''/'' \<and> \<not> isspace c"

text \<open>
  One round of the attribute loop (source lines 181--213): the key up to \<open>=\<close>, \<open>>\<close>,
  \<open>/\<close> or white space, then an optional \<open>=\<close> with a quoted or a bare value.  The result is
  the key, the value and the input after the round.
\<close>

definition attribute_value :: "string \<Rightarrow> string \<times> string" where
  "attribute_value s1 =
     (if s1 \<noteq> [] \<and> hd s1 = CHR ''='' then
        (let s3 = skip_whitespace (tl s1) in
         if s3 \<noteq> [] \<and> hd s3 = CHR 0x22 then
           (takeWhile (\<lambda>c. c \<noteq> CHR 0x22) (tl s3),
            (case dropWhile (\<lambda>c. c \<noteq> CHR 0x22) (tl s3) of [] \<Rightarrow> [] | q # r \<Rightarrow> r))
         else (takeWhile is_tag_char s3, dropWhile is_tag_char s3))
      else ([], s1))"

definition attribute_step :: "string \<Rightarrow> string \<times> string \<times> string" where
  "attribute_step s =
     (let key = map tolower (takeWhile is_key_char s);
          s1 = skip_whitespace (dropWhile is_key_char s);
          (value, s2) = attribute_value s1
      in (key, value, skip_whitespace s2))"

lemma length_skip_whitespace: "length (skip_whitespace s) \<le> length s"
  by (simp add: skip_whitespace_def length_dropWhile_le)

lemma length_after_quote:
  "length (case dropWhile P t of [] \<Rightarrow> [] | q # r \<Rightarrow> r) \<le> length t"
proof (cases "dropWhile P t")
  case Nil
  show ?thesis unfolding Nil by simp
next
  case (Cons q r)
  from length_dropWhile_le[of P t] show ?thesis unfolding Cons by simp
qed

lemma length_attribute_value: "length (snd (attribute_value s)) \<le> length s"
proof -
  have a: "length (skip_whitespace (tl s)) \<le> length s"
    using length_skip_whitespace[of "tl s"] by simp
  have b: "length (tl (skip_whitespace (tl s))) \<le> length s"
    using a by simp
  show ?thesis
    unfolding attribute_value_def Let_def
    using a b length_after_quote[of "\<lambda>c. c \<noteq> CHR 0x22" "tl (skip_whitespace (tl s))"]
      length_dropWhile_le[of is_tag_char "skip_whitespace (tl s)"]
    by (auto simp del: length_tl)
qed

lemma length_attribute_value_eq:
  assumes "s \<noteq> []" "hd s = CHR ''=''"
  shows "length (snd (attribute_value s)) < length s"
proof -
  have a: "length (skip_whitespace (tl s)) < length s"
    using length_skip_whitespace[of "tl s"] assms by (cases s) auto
  have b: "length (tl (skip_whitespace (tl s))) < length s"
    using a by simp
  show ?thesis
    unfolding attribute_value_def Let_def
    using a b assms length_after_quote[of "\<lambda>c. c \<noteq> CHR 0x22" "tl (skip_whitespace (tl s))"]
      length_dropWhile_le[of is_tag_char "skip_whitespace (tl s)"]
    by (auto simp del: length_tl)
qed

lemma attribute_step_rest:
  "snd (snd (attribute_step s))
     = skip_whitespace (snd (attribute_value (skip_whitespace (dropWhile is_key_char s))))"
  by (simp add: attribute_step_def Let_def split: prod.splits)

lemma attribute_step_progress:
  assumes "s \<noteq> []" "hd s \<noteq> CHR ''>''" "hd s \<noteq> CHR ''/''"
  shows "length (snd (snd (attribute_step s))) < length s"
proof -
  let ?r0 = "dropWhile is_key_char s"
  let ?s1 = "skip_whitespace ?r0"
  have le: "length (snd (snd (attribute_step s))) \<le> length (snd (attribute_value ?s1))"
    unfolding attribute_step_rest by (rule length_skip_whitespace)
  have le1: "length (snd (attribute_value ?s1)) \<le> length ?s1"
    by (rule length_attribute_value)
  have le2: "length ?s1 \<le> length ?r0"
    by (rule length_skip_whitespace)
  have le3: "length ?r0 \<le> length s"
    by (rule length_dropWhile_le)
  obtain c cs where s: "s = c # cs"
    using assms(1) by (cases s) auto
  show ?thesis
  proof (cases "is_key_char c")
    case True
    then have "length ?r0 < length s"
      using length_dropWhile_le[of is_key_char cs] by (simp add: s)
    with le le1 le2 show ?thesis by linarith
  next
    case False
    then have r0: "?r0 = s" by (simp add: s)
    show ?thesis
    proof (cases "isspace c")
      case True
      then have "length ?s1 < length s"
        unfolding r0 using length_dropWhile_le[of isspace cs]
        by (simp add: s skip_whitespace_def)
      with le le1 show ?thesis by linarith
    next
      case nsp: False
      with False assms have c: "c = CHR ''=''"
        by (auto simp: s is_key_char_def)
      from nsp have s1: "?s1 = s"
        unfolding r0 by (simp add: s skip_whitespace_def)
      have "length (snd (attribute_value ?s1)) < length s"
        unfolding s1 by (rule length_attribute_value_eq) (simp_all add: s c)
      with le show ?thesis by linarith
    qed
  qed
qed

text \<open>The attribute loop itself; a round with an empty key stores nothing.\<close>

function parse_attributes :: "string \<Rightarrow> attr_map \<Rightarrow> attr_map \<times> string" where
  "parse_attributes s attributes =
     (if s \<noteq> [] \<and> hd s \<noteq> CHR ''>'' \<and> hd s \<noteq> CHR ''/'' then
        (case attribute_step s of
           (key, value, rest) \<Rightarrow>
             parse_attributes rest (if key \<noteq> [] then map_set key value attributes else attributes))
      else (attributes, s))"
  by pat_completeness auto
termination
  apply (relation "measure (\<lambda>(s, a). length s)")
   apply simp
  apply (auto)
  subgoal for s key v rest
    using attribute_step_progress[of s] by (metis snd_conv)
  done

declare parse_attributes.simps [simp del]

text \<open>
  The trimming of the last text run: \<^verbatim>\<open>find_first_not_of(" \t\n\r")\<close> to
  \<open>find_last_not_of\<close> of the same set.
\<close>

definition is_trim_char :: "char \<Rightarrow> bool" where
  "is_trim_char c \<longleftrightarrow> c \<in> {CHR '' '', CHR 0x09, CHR 0x0A, CHR 0x0D}"

definition trim :: "string \<Rightarrow> string" where
  "trim text = rev (dropWhile is_trim_char (rev (dropWhile is_trim_char text)))"

definition set_text :: "html_Node \<Rightarrow> string \<Rightarrow> html_Node" where
  "set_text node txt = html_Node (h_tag node) txt (h_attributes node) (h_children node)"

definition push_child :: "html_Node \<Rightarrow> html_Node \<Rightarrow> html_Node" where
  "push_child node child =
     html_Node (h_tag node) (h_text node) (h_attributes node) (h_children node @ [child])"

text \<open>
  The end of \<open>parse_node\<close> (source lines 250--280): the text collected since the last child
  is trimmed, unescaped and stored, then the closing tag is read and compared.
\<close>

definition close_node :: "string \<Rightarrow> html_Node \<Rightarrow> string \<Rightarrow> string \<Rightarrow> error + html_Node \<times> string" where
  "close_node tag node text s =
     (let node1 = (if text \<noteq> [] then set_text node (unescape_html (trim text)) else node) in
      if s \<noteq> [] \<and> hd s = CHR ''<'' \<and> tl s \<noteq> [] \<and> hd (tl s) = CHR ''/'' then
        (let end_tag = map tolower (takeWhile (\<lambda>c. c \<noteq> CHR ''>'') (drop 2 s));
             s1 = dropWhile (\<lambda>c. c \<noteq> CHR ''>'') (drop 2 s)
         in if end_tag \<noteq> tag then Inl (invalid_argument ''Invalid HTML: Mismatched closing tag'')
            else if s1 \<noteq> [] then Inr (node1, tl s1)
            else Inl (invalid_argument ''Invalid HTML: Unclosed tag''))
      else Inl (invalid_argument (''Invalid HTML: Missing closing tag for '' @ tag)))"

text \<open>
  The beginning of \<open>parse_node\<close> (source lines 152--228): no element here (the empty node
  is returned), a tag closed by \<open>/\<close>, or a tag opened by \<open>>\<close> whose body follows.
\<close>

datatype open_result =
    NoElement string
  | SelfClosed html_Node string
  | Opened string attr_map string

definition parse_open_tag :: "string \<Rightarrow> error + open_result" where
  "parse_open_tag html =
     (let s = skip_whitespace html in
      if s = [] \<or> hd s \<noteq> CHR ''<'' then Inr (NoElement s)
      else if tl s = [] then Inl (invalid_argument ''Invalid HTML: Unexpected end of input'')
      else if hd (tl s) = CHR ''/'' then Inr (NoElement (tl s))
      else
        (let tag = map tolower (takeWhile is_tag_char (tl s));
             s1 = skip_whitespace (dropWhile is_tag_char (tl s))
         in if tag = [] then Inl (invalid_argument ''Invalid HTML: Empty tag name'')
            else
              (case parse_attributes s1 [] of
                 (attributes, s2) \<Rightarrow>
                   if s2 \<noteq> [] \<and> hd s2 = CHR ''/'' then
                     Inr (SelfClosed (html_Node tag [] attributes [])
                            (if tl s2 \<noteq> [] \<and> hd (tl s2) = CHR ''>'' then tl (tl s2) else tl s2))
                   else if s2 \<noteq> [] \<and> hd s2 = CHR ''>'' then Inr (Opened tag attributes (tl s2))
                   else Inl (invalid_argument ''Invalid HTML: Expected '>' after tag''))))"

text \<open>
  \<open>parse_node\<close> and its body loop (source lines 230--248).  The loop calls \<open>parse_node\<close>
  for each child; the recursion is bounded by \<open>fuel\<close>, \<open>None\<close> meaning that the fuel ran
  out.  \<open>parse_total\<close> below shows that the length of the input is always enough.  The text
  collected before a child is stored unescaped as it is (source line 237).
\<close>

function parse_node :: "nat \<Rightarrow> string \<Rightarrow> (error + html_Node \<times> string) option"
  and parse_children ::
    "nat \<Rightarrow> string \<Rightarrow> html_Node \<Rightarrow> string \<Rightarrow> (error + html_Node \<times> string \<times> string) option"
where
  "parse_node fuel html =
     (case parse_open_tag html of
        Inl e \<Rightarrow> Some (Inl e)
      | Inr (NoElement s) \<Rightarrow> Some (Inr (html_Node [] [] [] [], s))
      | Inr (SelfClosed node s) \<Rightarrow> Some (Inr (node, s))
      | Inr (Opened tag attributes s) \<Rightarrow>
          (case parse_children fuel s (html_Node tag [] attributes []) [] of
             None \<Rightarrow> None
           | Some (Inl e) \<Rightarrow> Some (Inl e)
           | Some (Inr (node, text, s')) \<Rightarrow> Some (close_node tag node text s')))"
| "parse_children fuel [] node text = Some (Inr (node, text, []))"
| "parse_children fuel (c # cs) node text =
     (if c = CHR ''<'' then
        (if cs \<noteq> [] \<and> hd cs = CHR ''/'' then Some (Inr (node, text, c # cs))
         else
           (case fuel of
              0 \<Rightarrow> None
            | Suc fuel' \<Rightarrow>
                (case parse_node fuel' (c # cs) of
                   None \<Rightarrow> None
                 | Some (Inl e) \<Rightarrow> Some (Inl e)
                 | Some (Inr (child, rest)) \<Rightarrow>
                     (let node1 = (if text \<noteq> [] then set_text node (unescape_html text) else node)
                      in parse_children fuel' rest
                           (if h_tag child \<noteq> [] then push_child node1 child else node1) []))))
      else parse_children fuel cs node (text @ [c]))"
  by pat_completeness auto
termination
  by (relation "inv_image (less_than <*lex*> less_than <*lex*> less_than)
        (\<lambda>x. case x of Inl (fuel, html) \<Rightarrow> (fuel, 1::nat, 0::nat)
                      | Inr (fuel, s, node, text) \<Rightarrow> (fuel, 0, length s))") auto

declare parse_node.simps [simp del]

text \<open>\<open>html::Deserializer::deserialize\<close>.\<close>

definition deserialize :: "string \<Rightarrow> (error + html_Node) option" where
  "deserialize html =
     (case parse_node (length html) html of
        None \<Rightarrow> None
      | Some (Inl e) \<Rightarrow> Some (Inl e)
      | Some (Inr (result, rest)) \<Rightarrow>
          if h_tag result = [] then Some (Inl (invalid_argument ''Invalid HTML: No root element found''))
          else Some (Inr result))"

subsection \<open>Regular expressions (\<open>std::regex\<close>, ECMAScript grammar)\<close>

text \<open>
  The parser's patterns are written in the constructors below and matched by a backtracking
  matcher.  \<open>ms n r (s, c)\<close> lists, in the order in which a backtracking matcher tries
  them, the states that \<open>r\<close> can reach from the input suffix \<open>s\<close> with captures \<open>c\<close>; \<open>n\<close>
  is the length of the whole input, for \<open>^\<close>.  A greedy star tries one more round first, a
  lazy one tries to stop first; a round that consumes nothing is not repeated.
\<close>

datatype re =
    Eps
  | Sym "char \<Rightarrow> bool"
  | Seq re re
  | Star re
  | Lazy re
  | Opt re
  | Grp nat re
  | Bol
  | Eol

type_synonym captures = "nat \<Rightarrow> string"
type_synonym mstate = "string \<times> captures"

function (sequential) ms :: "nat \<Rightarrow> re \<Rightarrow> mstate \<Rightarrow> mstate list" where
  "ms n Eps st = [st]"
| "ms n (Sym p) st =
     (case fst st of [] \<Rightarrow> [] | c # cs \<Rightarrow> if p c then [(cs, snd st)] else [])"
| "ms n (Seq r1 r2) st = concat (map (ms n r2) (ms n r1 st))"
| "ms n (Star r) st =
     concat (map (\<lambda>st'. if length (fst st') < length (fst st) then ms n (Star r) st' else [])
                 (ms n r st)) @ [st]"
| "ms n (Lazy r) st =
     st # concat (map (\<lambda>st'. if length (fst st') < length (fst st) then ms n (Lazy r) st' else [])
                      (ms n r st))"
| "ms n (Opt r) st = ms n r st @ [st]"
| "ms n (Grp k r) st =
     map (\<lambda>st'. (fst st', (snd st')(k := take (length (fst st) - length (fst st')) (fst st))))
         (ms n r st)"
| "ms n Bol st = (if length (fst st) = n then [st] else [])"
| "ms n Eol st = (if fst st = [] then [st] else [])"
  by pat_completeness auto
termination
  by (relation "inv_image (less_than <*lex*> less_than) (\<lambda>(n, r, st). (size r, length (fst st)))")
     auto

declare ms.simps [simp del]

text \<open>
  \<open>std::regex_match\<close>: the first way to match the whole input, with its captures
  (\<open>m[k].str()\<close> is \<open>m k\<close>, empty for a group that did not take part).
  \<open>std::regex_search\<close>: the first match at the leftmost position where there is one, as the
  length of the prefix before it, the length of the match and the captures.
\<close>

definition no_captures :: captures where
  "no_captures = (\<lambda>k. [])"

definition regex_match :: "re \<Rightarrow> string \<Rightarrow> captures option" where
  "regex_match r s =
     (case filter (\<lambda>st. fst st = []) (ms (length s) r (s, no_captures)) of
        [] \<Rightarrow> None
      | st # _ \<Rightarrow> Some (snd st))"

fun search_from :: "nat \<Rightarrow> re \<Rightarrow> string \<Rightarrow> nat \<Rightarrow> (nat \<times> nat \<times> captures) option" where
  "search_from n r s k =
     (case ms n r (s, no_captures) of
        st # _ \<Rightarrow> Some (k, length s - length (fst st), snd st)
      | [] \<Rightarrow> (case s of [] \<Rightarrow> None | c # cs \<Rightarrow> search_from n r cs (Suc k)))"

declare search_from.simps [simp del]

definition regex_search :: "re \<Rightarrow> string \<Rightarrow> (nat \<times> nat \<times> captures) option" where
  "regex_search r s = search_from (length s) r s 0"

text \<open>
  Character classes: \<open>.\<close> is every character but a line terminator, \<^verbatim>\<open>\s\<close> is
  \<open>std::isspace\<close>, \<^verbatim>\<open>\d\<close> a digit, \<^verbatim>\<open>\w\<close> a letter, a digit or \<open>_\<close>.  Quantifiers:
  \<open>r+\<close> is \<open>Plus r\<close>, \<open>r{lo,hi}\<close> is \<open>between lo hi r\<close>, \<open>r{lo,}\<close> is \<open>at_least lo r\<close>.
\<close>

definition chr :: "char \<Rightarrow> re" where
  "chr c = Sym (\<lambda>x. x = c)"

definition one_of :: "string \<Rightarrow> re" where
  "one_of cs = Sym (\<lambda>x. x \<in> set cs)"

definition none_of :: "string \<Rightarrow> re" where
  "none_of cs = Sym (\<lambda>x. x \<notin> set cs)"

definition any_char :: re where
  "any_char = Sym (\<lambda>x. x \<noteq> CHR 0x0A \<and> x \<noteq> CHR 0x0D)"

definition space :: re where
  "space = Sym isspace"

definition digit :: re where
  "digit = one_of ''0123456789''"

definition word :: re where
  "word = one_of (''abcdefghijklmnopqrstuvwxyz'' @ ''ABCDEFGHIJKLMNOPQRSTUVWXYZ'' @ ''0123456789_'')"

definition Plus :: "re \<Rightarrow> re" where
  "Plus r = Seq r (Star r)"

fun at_most :: "nat \<Rightarrow> re \<Rightarrow> re" where
  "at_most 0 r = Eps"
| "at_most (Suc k) r = Opt (Seq r (at_most k r))"

fun repeat_then :: "nat \<Rightarrow> re \<Rightarrow> re \<Rightarrow> re" where
  "repeat_then 0 r rest = rest"
| "repeat_then (Suc k) r rest = Seq r (repeat_then k r rest)"

definition between :: "nat \<Rightarrow> nat \<Rightarrow> re \<Rightarrow> re" where
  "between lo hi r = repeat_then lo r (at_most (hi - lo) r)"

definition at_least :: "nat \<Rightarrow> re \<Rightarrow> re" where
  "at_least lo r = repeat_then lo r (Star r)"

fun seqs :: "re list \<Rightarrow> re" where
  "seqs [] = Eps"
| "seqs [r] = r"
| "seqs (r # rs) = Seq r (seqs rs)"

text \<open>
  The patterns of \<open>parse_block\<close> and \<open>parse_inline\<close>, each with its source line:
  \<^item> \<open>hr_regex\<close> (line 470): \<^verbatim>\<open>^\s*[-*_]{3,}\s*$\<close>
  \<^item> \<open>heading_regex\<close> (line 477): \<^verbatim>\<open>^(#{1,6})\s+(.+)$\<close>
  \<^item> \<open>code_open_regex\<close> (line 486): \<^verbatim>\<open>^```(\w*)\s*$\<close>
  \<^item> \<open>code_close_regex\<close> (line 491): \<^verbatim>\<open>^```\s*$\<close>
  \<^item> \<open>quote_regex\<close> (line 509): \<^verbatim>\<open>^\s*>\s*(.*)$\<close>
  \<^item> \<open>ul_regex\<close> (line 520): \<^verbatim>\<open>^(\s*)[-*+]\s+(.+)$\<close>
  \<^item> \<open>ol_regex\<close> (line 521): \<^verbatim>\<open>^(\s*)\d+\.\s+(.+)$\<close>
  \<^item> \<open>table_separator_regex\<close> (line 555): \<^verbatim>\<open>^\s*\|[\s\-\|]*\|\s*$\<close>
  \<^item> \<open>cell_regex\<close> (line 561): \<^verbatim>\<open>\|([^|]*)\<close>
  \<^item> \<open>paragraph_break_regex\<close> (line 592): \<^verbatim>\<open>^#{1,6}\s+\<close>
  \<^item> \<open>bold_regex\<close> (line 609): \<^verbatim>\<open>\*\*(.*?)\*\*\<close>
  \<^item> \<open>italic_regex\<close> (line 628): \<^verbatim>\<open>\*(.*?)\*\<close>
  \<^item> \<open>code_regex\<close> (line 647): \<^verbatim>\<open>`([^`]+)`\<close>
  \<^item> \<open>link_regex\<close> (line 666): \<^verbatim>\<open>\[([^\]]+)\]\(([^)]+)\)\<close>
  \<^item> \<open>img_regex\<close> (line 686): \<^verbatim>\<open>!\[([^\]]*)\]\(([^)]+)\)\<close>
\<close>

definition hr_regex :: re where
  "hr_regex = seqs [Bol, Star space, at_least 3 (one_of ''-*_''), Star space, Eol]"

definition heading_regex :: re where
  "heading_regex = seqs [Bol, Grp 1 (between 1 6 (chr CHR ''#'')), Plus space, Grp 2 (Plus any_char), Eol]"

definition code_open_regex :: re where
  "code_open_regex = seqs [Bol, chr CHR 0x60, chr CHR 0x60, chr CHR 0x60, Grp 1 (Star word), Star space, Eol]"

definition code_close_regex :: re where
  "code_close_regex = seqs [Bol, chr CHR 0x60, chr CHR 0x60, chr CHR 0x60, Star space, Eol]"

definition quote_regex :: re where
  "quote_regex = seqs [Bol, Star space, chr CHR ''>'', Star space, Grp 1 (Star any_char), Eol]"

definition ul_regex :: re where
  "ul_regex = seqs [Bol, Grp 1 (Star space), one_of ''-*+'', Plus space, Grp 2 (Plus any_char), Eol]"

definition ol_regex :: re where
  "ol_regex = seqs [Bol, Grp 1 (Star space), Plus digit, chr CHR ''.'', Plus space, Grp 2 (Plus any_char), Eol]"

definition table_separator_regex :: re where
  "table_separator_regex =
     seqs [Bol, Star space, chr CHR ''|'', Star (Sym (\<lambda>x. isspace x \<or> x = CHR ''-'' \<or> x = CHR ''|'')),
           chr CHR ''|'', Star space, Eol]"

definition cell_regex :: re where
  "cell_regex = seqs [chr CHR ''|'', Grp 1 (Star (none_of ''|''))]"

definition paragraph_break_regex :: re where
  "paragraph_break_regex = seqs [Bol, between 1 6 (chr CHR ''#''), Plus space]"

definition bold_regex :: re where
  "bold_regex = seqs [chr CHR ''*'', chr CHR ''*'', Grp 1 (Lazy any_char), chr CHR ''*'', chr CHR ''*'']"

definition italic_regex :: re where
  "italic_regex = seqs [chr CHR ''*'', Grp 1 (Lazy any_char), chr CHR ''*'']"

definition code_regex :: re where
  "code_regex = seqs [chr CHR 0x60, Grp 1 (Plus (none_of [CHR 0x60])), chr CHR 0x60]"

definition link_regex :: re where
  "link_regex = seqs [chr CHR ''['', Grp 1 (Plus (none_of '']'')), chr CHR '']'', chr CHR ''('',
                      Grp 2 (Plus (none_of '')'')), chr CHR '')'']"

definition img_regex :: re where
  "img_regex = seqs [chr CHR ''!'', chr CHR ''['', Grp 1 (Star (none_of '']'')), chr CHR '']'',
                     chr CHR ''('', Grp 2 (Plus (none_of '')'')), chr CHR '')'']"

text \<open>
  A match never ends before it starts, and a pattern that begins with a single character
  consumes input: the facts that make the loops over \<open>regex_search\<close> terminate.
\<close>

lemma ms_length: "st' \<in> set (ms n r st) \<Longrightarrow> length (fst st') \<le> length (fst st)"
proof (induction n r st arbitrary: st' rule: ms.induct)
  case (1 n st)
  then show ?case by (simp add: ms.simps(1))
next
  case (2 n p st)
  then show ?case by (cases "fst st") (auto simp: ms.simps(2) split: if_splits)
next
  case (3 n r1 r2 st)
  from "3.prems" obtain mid where m: "mid \<in> set (ms n r1 st)" "st' \<in> set (ms n r2 mid)"
    by (auto simp: ms.simps(3))
  from "3.IH"(1)[OF m(1)] "3.IH"(2)[OF m(1) m(2)] show ?case by linarith
next
  case (4 n r st)
  show ?case
  proof (cases "st' = st")
    case True
    then show ?thesis by simp
  next
    case False
    with "4.prems"[unfolded ms.simps(4)[of n r st]] obtain mid where m: "mid \<in> set (ms n r st)"
      "length (fst mid) < length (fst st)" "st' \<in> set (ms n (Star r) mid)"
      by (auto split: if_splits)
    from "4.IH"(2)[OF m] m(2) show ?thesis by linarith
  qed
next
  case (5 n r st)
  show ?case
  proof (cases "st' = st")
    case True
    then show ?thesis by simp
  next
    case False
    with "5.prems"[unfolded ms.simps(5)[of n r st]] obtain mid where m: "mid \<in> set (ms n r st)"
      "length (fst mid) < length (fst st)" "st' \<in> set (ms n (Lazy r) mid)"
      by (auto split: if_splits)
    from "5.IH"(2)[OF m] m(2) show ?thesis by linarith
  qed
next
  case (6 n r st)
  show ?case
  proof (cases "st' = st")
    case True
    then show ?thesis by simp
  next
    case False
    with "6.prems" have "st' \<in> set (ms n r st)"
      by (simp add: ms.simps(6))
    then show ?thesis by (rule "6.IH")
  qed
next
  case (7 n k r st)
  then show ?case by (auto simp: ms.simps(7))
next
  case (8 n st)
  then show ?case by (auto simp: ms.simps(8) split: if_splits)
next
  case (9 n st)
  then show ?case by (auto simp: ms.simps(9) split: if_splits)
qed

definition consuming :: "re \<Rightarrow> bool" where
  "consuming r \<longleftrightarrow> (\<forall>n st st'. st' \<in> set (ms n r st) \<longrightarrow> length (fst st') < length (fst st))"

lemma consuming_Seq_Sym: "consuming (Seq (Sym p) r)"
  unfolding consuming_def
proof (intro allI impI)
  fix n st st'
  assume "st' \<in> set (ms n (Seq (Sym p) r) st)"
  then obtain mid where m: "mid \<in> set (ms n (Sym p) st)" "st' \<in> set (ms n r mid)"
    by (auto simp: ms.simps(3))
  from m(1) have "length (fst mid) < length (fst st)"
    by (cases "fst st") (auto simp: ms.simps(2) split: if_splits)
  with ms_length[OF m(2)] show "length (fst st') < length (fst st)"
    by linarith
qed

lemma search_from_progress:
  "consuming r \<Longrightarrow> search_from n r s k = Some (p, l, c)
     \<Longrightarrow> k \<le> p \<and> 0 < l \<and> (p - k) + l \<le> length s"
proof (induction n r s k rule: search_from.induct)
  case (1 n r s k)
  note con = "1.prems"(1) and res = "1.prems"(2)[unfolded search_from.simps[of n r s k]]
  show ?case
  proof (cases "ms n r (s, no_captures)")
    case (Cons st sts)
    then have "st \<in> set (ms n r (s, no_captures))" by simp
    from con[unfolded consuming_def, rule_format, OF this] have "length (fst st) < length s"
      by simp
    with res Cons show ?thesis
      by auto
  next
    case Nil
    show ?thesis
    proof (cases s)
      case Nil2: Nil
      with Nil res show ?thesis by simp
    next
      case (Cons a cs)
      with Nil res have "search_from n r cs (Suc k) = Some (p, l, c)"
        by simp
      from "1.IH"[OF Nil Cons con this] Cons show ?thesis
        by auto
    qed
  qed
qed

lemma regex_search_progress:
  assumes "consuming r" "regex_search r s = Some (p, l, c)"
  shows "0 < l \<and> p + l \<le> length s"
  using search_from_progress[OF assms(1), of "length s" s 0 p l c] assms(2)
  by (simp add: regex_search_def)

lemma consuming_inline:
  "consuming bold_regex" "consuming italic_regex" "consuming code_regex"
  "consuming link_regex" "consuming img_regex" "consuming cell_regex"
  by (simp_all only: bold_regex_def italic_regex_def code_regex_def link_regex_def img_regex_def
      cell_regex_def chr_def seqs.simps consuming_Seq_Sym)

subsection \<open>Markup AST (\<open>markdown::Node\<close>)\<close>

datatype NodeType =
    Document | Heading | Paragraph | CodeBlock | InlineCode | Bold | Italic | Link | Image
  | List | ListItem | Quote | Table | TableRow | TableCell | Text | LineBreak | HorizontalRule

datatype md_Node = md_Node (md_type: NodeType) (md_text: string) (md_attributes: attr_map)
  (md_children: "md_Node list") (md_level: int)

text \<open>
  The constructors \<open>Node(t)\<close> and \<open>Node(t, txt)\<close> (level \<open>0\<close>, no attribute, no child),
  \<open>children.push_back\<close> and \<open>attributes[k] = v\<close>.
\<close>

definition new_node :: "NodeType \<Rightarrow> md_Node" where
  "new_node t = md_Node t [] [] [] 0"

definition text_node :: "NodeType \<Rightarrow> string \<Rightarrow> md_Node" where
  "text_node t txt = md_Node t txt [] [] 0"

definition add_children :: "md_Node \<Rightarrow> md_Node list \<Rightarrow> md_Node" where
  "add_children parent nodes =
     md_Node (md_type parent) (md_text parent) (md_attributes parent) (md_children parent @ nodes)
       (md_level parent)"

definition set_attribute :: "md_Node \<Rightarrow> string \<Rightarrow> string \<Rightarrow> md_Node" where
  "set_attribute node k v =
     md_Node (md_type node) (md_text node) (map_set k v (md_attributes node)) (md_children node)
       (md_level node)"

subsection \<open>Inline tokenizer (\<open>markdown::Deserializer::parse_inline\<close>)\<close>

lemma search_decreases:
  assumes "consuming r" "regex_search r s = Some x" "(p, y) = x" "(l, m) = y"
  shows "length s - (p + l) < length s"
proof -
  from assms have "regex_search r s = Some (p, l, m)" by auto
  from regex_search_progress[OF assms(1) this] show ?thesis by linarith
qed

text \<open>
  The \<open>while\<close> loop of \<open>parse_inline\<close>: the argument is \<open>remaining\<close> from \<open>pos\<close> on, the result
  the nodes appended to the parent.  The patterns are tried in the order bold, italic, code,
  link, image; the first that matches somewhere ahead wins.
\<close>

function parse_inline_loop :: "string \<Rightarrow> md_Node list" where
  "parse_inline_loop s =
     (if s = [] then []
      else
        (case regex_search bold_regex s of
           Some (p, l, m) \<Rightarrow>
             (if 0 < p then [text_node Text (take p s)] else [])
             @ [text_node Bold (m 1)] @ parse_inline_loop (drop (p + l) s)
         | None \<Rightarrow>
        (case regex_search italic_regex s of
           Some (p, l, m) \<Rightarrow>
             (if 0 < p then [text_node Text (take p s)] else [])
             @ [text_node Italic (m 1)] @ parse_inline_loop (drop (p + l) s)
         | None \<Rightarrow>
        (case regex_search code_regex s of
           Some (p, l, m) \<Rightarrow>
             (if 0 < p then [text_node Text (take p s)] else [])
             @ [text_node InlineCode (m 1)] @ parse_inline_loop (drop (p + l) s)
         | None \<Rightarrow>
        (case regex_search link_regex s of
           Some (p, l, m) \<Rightarrow>
             (if 0 < p then [text_node Text (take p s)] else [])
             @ [set_attribute (text_node Link (m 1)) ''href'' (m 2)]
             @ parse_inline_loop (drop (p + l) s)
         | None \<Rightarrow>
        (case regex_search img_regex s of
           Some (p, l, m) \<Rightarrow>
             (if 0 < p then [text_node Text (take p s)] else [])
             @ [set_attribute (set_attribute (new_node Image) ''alt'' (m 1)) ''src'' (m 2)]
             @ parse_inline_loop (drop (p + l) s)
         | None \<Rightarrow> [text_node Text s]))))))"
  by pat_completeness auto
termination
  by (relation "measure length")
    (auto intro: search_decreases[OF consuming_inline(1)] search_decreases[OF consuming_inline(2)]
       search_decreases[OF consuming_inline(3)] search_decreases[OF consuming_inline(4)]
       search_decreases[OF consuming_inline(5)])

declare parse_inline_loop.simps [simp del]

definition parse_inline :: "string \<Rightarrow> md_Node \<Rightarrow> md_Node" where
  "parse_inline txt parent =
     (if txt = [] then parent
      else
        (let parent1 = add_children parent (parse_inline_loop txt)
         in if md_children parent1 = [] \<and> txt \<noteq> []
            then add_children parent1 [text_node Text txt]
            else parent1))"

subsection \<open>Block parser (\<open>markdown::Deserializer::parse_block\<close>)\<close>

text \<open>The \<open>std::getline\<close> loop of \<open>deserialize\<close>: the lines, without their terminators.\<close>

function getlines :: "string \<Rightarrow> string list" where
  "getlines s =
     (if s = [] then []
      else takeWhile (\<lambda>c. c \<noteq> CHR 0x0A) s
           # (case dropWhile (\<lambda>c. c \<noteq> CHR 0x0A) s of [] \<Rightarrow> [] | nl # rest \<Rightarrow> getlines rest))"
  by pat_completeness auto
termination
proof (relation "measure length", goal_cases)
  case 1
  show ?case by simp
next
  case (2 s nl rest)
  from length_dropWhile_le[of "\<lambda>c. c \<noteq> CHR 0x0A" s] 2(2) show ?case
    by simp
qed

declare getlines.simps [simp del]

text \<open>
  The loops of \<open>parse_block\<close>, each on the lines from \<open>pos\<close> on and returning the lines left:
  the body of a fenced code block (a line break is written before a line only when the
  content so far is not empty), the items of a list, the rows of a table and the
  continuation lines of a paragraph.
\<close>

fun code_lines :: "string list \<Rightarrow> string \<Rightarrow> string \<times> string list" where
  "code_lines [] code_content = (code_content, [])"
| "code_lines (l # ls) code_content =
     (if regex_match code_close_regex l = None
      then code_lines ls ((if code_content \<noteq> [] then code_content @ ''\<newline>'' else code_content) @ l)
      else (code_content, ls))"

definition list_match :: "string \<Rightarrow> captures option" where
  "list_match line =
     (case regex_match ul_regex line of
        Some m \<Rightarrow> Some m
      | None \<Rightarrow> regex_match ol_regex line)"

definition list_item :: "bool \<Rightarrow> captures \<Rightarrow> md_Node" where
  "list_item is_ordered item_match =
     parse_inline (item_match 2)
       (if is_ordered then set_attribute (new_node ListItem) ''ordered'' ''true''
        else new_node ListItem)"

fun list_items :: "bool \<Rightarrow> string list \<Rightarrow> md_Node list \<times> string list" where
  "list_items is_ordered [] = ([], [])"
| "list_items is_ordered (l # ls) =
     (case list_match l of
        Some item_match \<Rightarrow>
          (case list_items is_ordered ls of
             (items, rest) \<Rightarrow> (list_item is_ordered item_match # items, rest))
      | None \<Rightarrow> ([], l # ls))"

definition is_blank_char :: "char \<Rightarrow> bool" where
  "is_blank_char c \<longleftrightarrow> c = CHR '' '' \<or> c = CHR 0x09"

function cell_matches :: "string \<Rightarrow> string list" where
  "cell_matches s =
     (case regex_search cell_regex s of
        None \<Rightarrow> []
      | Some (p, l, m) \<Rightarrow> m 1 # cell_matches (drop (p + l) s))"
  by pat_completeness auto
termination
  by (relation "measure length") (auto intro: search_decreases[OF consuming_inline(6)])

declare cell_matches.simps [simp del]

definition table_cells :: "string \<Rightarrow> md_Node list" where
  "table_cells table_line =
     concat (map (\<lambda>(i, content).
                    (let cell_content =
                           rev (dropWhile is_blank_char (rev (dropWhile is_blank_char content)))
                     in if cell_content \<noteq> [] \<or> i \<noteq> 0
                        then [parse_inline cell_content (new_node TableCell)] else []))
                 (enumerate 0 (cell_matches table_line)))"

fun table_rows :: "string list \<Rightarrow> md_Node list \<times> string list" where
  "table_rows [] = ([], [])"
| "table_rows (l # ls) =
     (if CHR ''|'' \<in> set l then
        (case table_rows ls of
           (rows, rest) \<Rightarrow>
             (if regex_match table_separator_regex l \<noteq> None then (rows, rest)
              else if table_cells l \<noteq> [] then (add_children (new_node TableRow) (table_cells l) # rows, rest)
              else (rows, rest)))
      else ([], l # ls))"

fun paragraph_lines :: "string list \<Rightarrow> string \<Rightarrow> string \<times> string list" where
  "paragraph_lines [] paragraph_text = (paragraph_text, [])"
| "paragraph_lines (l # ls) paragraph_text =
     (if l \<noteq> [] \<and> regex_match paragraph_break_regex l = None
      then paragraph_lines ls (paragraph_text @ '' '' @ l)
      else (paragraph_text, l # ls))"

text \<open>
  \<open>parse_block\<close>: the nodes appended to the parent (none for a blank line) and the lines
  left.
\<close>

definition parse_block :: "string list \<Rightarrow> md_Node list \<times> string list" where
  "parse_block lines =
     (case lines of
        [] \<Rightarrow> ([], [])
      | line # rest \<Rightarrow>
          if line = [] then ([], rest)
          else if regex_match hr_regex line \<noteq> None then ([new_node HorizontalRule], rest)
          else
            (case regex_match heading_regex line of
               Some heading_match \<Rightarrow>
                 ([md_Node Heading (heading_match 2) [] [] (int (length (heading_match 1)))], rest)
             | None \<Rightarrow>
            (case regex_match code_open_regex line of
               Some code_match \<Rightarrow>
                 (case code_lines rest [] of
                    (code_content, rest') \<Rightarrow>
                      ([if code_match 1 \<noteq> []
                        then set_attribute (text_node CodeBlock code_content) ''language'' (code_match 1)
                        else text_node CodeBlock code_content], rest'))
             | None \<Rightarrow>
            (case regex_match quote_regex line of
               Some quote_match \<Rightarrow> ([parse_inline (quote_match 1) (new_node Quote)], rest)
             | None \<Rightarrow>
            (if list_match line \<noteq> None then
               (case list_items (regex_match ol_regex line \<noteq> None) lines of
                  (items, rest') \<Rightarrow> ([add_children (new_node List) items], rest'))
             else if CHR ''|'' \<in> set line then
               (case table_rows lines of
                  (rows, rest') \<Rightarrow> ([add_children (new_node Table) rows], rest'))
             else
               (case paragraph_lines rest line of
                  (paragraph_text, rest') \<Rightarrow>
                    ([parse_inline paragraph_text (new_node Paragraph)], rest')))))))"

lemma code_lines_length: "length (snd (code_lines ls acc)) \<le> length ls"
  by (induction ls arbitrary: acc) (auto simp: le_SucI)

lemma list_items_length: "length (snd (list_items b ls)) \<le> length ls"
  by (induction ls) (auto split: option.splits prod.splits)

lemma table_rows_length: "length (snd (table_rows ls)) \<le> length ls"
  by (induction ls) (auto split: prod.splits simp: le_SucI)

lemma paragraph_lines_length: "length (snd (paragraph_lines ls acc)) \<le> length ls"
  by (induction ls arbitrary: acc) (auto simp: le_SucI)

lemma parse_block_progress:
  assumes "lines \<noteq> []"
  shows "length (snd (parse_block lines)) < length lines"
proof -
  from assms obtain line rest where l: "lines = line # rest"
    by (cases lines) auto
  have a: "code_lines rest [] = (x, y) \<Longrightarrow> length y < Suc (length rest)" for x y
    using code_lines_length[of rest "[]"] by simp
  have b: "list_items ord (line # rest) = (x, y) \<Longrightarrow> list_match line = Some m
             \<Longrightarrow> length y < Suc (length rest)" for ord x y m
    using list_items_length[of ord rest] by (auto split: prod.splits)
  have c: "table_rows (line # rest) = (x, y) \<Longrightarrow> CHR ''|'' \<in> set line
             \<Longrightarrow> length y < Suc (length rest)" for x y
    using table_rows_length[of rest] by (auto split: prod.splits if_splits)
  have d: "paragraph_lines rest line = (x, y) \<Longrightarrow> length y < Suc (length rest)" for x y
    using paragraph_lines_length[of rest line] by simp
  show ?thesis
    unfolding l parse_block_def using a b c d
    by (auto split: option.splits prod.splits simp del: list_items.simps table_rows.simps)
qed

text \<open>The loop of \<open>deserialize\<close> over the blocks, and \<open>markdown::Deserializer::deserialize\<close>.\<close>

function parse_blocks :: "string list \<Rightarrow> md_Node list" where
  "parse_blocks lines =
     (if lines = [] then []
      else (case parse_block lines of (nodes, rest) \<Rightarrow> nodes @ parse_blocks rest))"
  by pat_completeness auto
termination
  apply (relation "measure length")
   apply simp
  subgoal for lines
    using parse_block_progress[of lines] by (metis in_measure snd_conv)
  done

declare parse_blocks.simps [simp del]

definition md_deserialize :: "string \<Rightarrow> md_Node" where
  "md_deserialize markdown = add_children (new_node Document) (parse_blocks (getlines markdown))"

subsection \<open>Markup serializers (\<open>markdown::Serializer\<close>)\<close>

text \<open>\<open>std::to_string(int)\<close>.\<close>

function digits :: "nat \<Rightarrow> string" where
  "digits n = (if n < 10 then [''0123456789'' ! n] else digits (n div 10) @ [''0123456789'' ! (n mod 10)])"
  by pat_completeness auto
termination
  by (relation "measure id") auto

declare digits.simps [simp del]

definition to_string :: "int \<Rightarrow> string" where
  "to_string i = (if i < 0 then ''-'' @ digits (nat (- i)) else digits (nat i))"

text \<open>
  \<open>convert_to_html_node\<close>.  \<open>attributes.at(k)\<close> throws \<open>std::out_of_range\<close> when the key
  is missing; the conversion of the children stops at the first exception.
\<close>

definition bare_text :: "string \<Rightarrow> html_Node list" where
  "bare_text txt = (if txt \<noteq> [] then [html_Node [] txt [] []] else [])"

fun convert_to_html_node :: "md_Node \<Rightarrow> error + html_Node"
  and convert_children :: "md_Node list \<Rightarrow> error + html_Node list"
where
  "convert_to_html_node (md_Node type text attributes children level) =
     (case type of
        Document \<Rightarrow>
          (case convert_children children of
             Inl e \<Rightarrow> Inl e
           | Inr cs \<Rightarrow> Inr (html_Node ''div'' [] [] cs))
      | Heading \<Rightarrow>
          Inr (html_Node (''h'' @ to_string level) text (map_set ''class'' ''heading-primary'' []) [])
      | Paragraph \<Rightarrow>
          (case convert_children children of
             Inl e \<Rightarrow> Inl e
           | Inr cs \<Rightarrow> Inr (html_Node ''p'' [] (map_set ''class'' ''paragraph'' []) (cs @ bare_text text)))
      | CodeBlock \<Rightarrow>
          Inr (html_Node ''pre'' [] (map_set ''class'' ''code-block'' [])
                 [html_Node ''code'' text
                    (case map_of attributes ''language'' of
                       Some language \<Rightarrow> map_set ''class'' (''language-'' @ language) []
                     | None \<Rightarrow> []) []])
      | InlineCode \<Rightarrow> Inr (html_Node ''code'' text (map_set ''class'' ''inline-code'' []) [])
      | Bold \<Rightarrow>
          (case convert_children children of
             Inl e \<Rightarrow> Inl e
           | Inr cs \<Rightarrow> Inr (html_Node ''strong'' [] (map_set ''class'' ''bold'' []) (cs @ bare_text text)))
      | Italic \<Rightarrow>
          (case convert_children children of
             Inl e \<Rightarrow> Inl e
           | Inr cs \<Rightarrow> Inr (html_Node ''em'' [] (map_set ''class'' ''italic'' []) (cs @ bare_text text)))
      | Link \<Rightarrow>
          (case map_of attributes ''href'' of
             None \<Rightarrow> Inl out_of_range
           | Some href \<Rightarrow>
               Inr (html_Node ''a'' text (map_set ''class'' ''link'' (map_set ''href'' href [])) []))
      | Image \<Rightarrow>
          (case map_of attributes ''src'' of
             None \<Rightarrow> Inl out_of_range
           | Some src \<Rightarrow>
               (case map_of attributes ''alt'' of
                  None \<Rightarrow> Inl out_of_range
                | Some alt \<Rightarrow>
                    Inr (html_Node ''img'' []
                           (map_set ''class'' ''image'' (map_set ''alt'' alt (map_set ''src'' src []))) [])))
      | List \<Rightarrow>
          (case convert_children children of
             Inl e \<Rightarrow> Inl e
           | Inr cs \<Rightarrow> Inr (html_Node ''ul'' [] (map_set ''class'' ''list'' []) cs))
      | ListItem \<Rightarrow>
          (case convert_children children of
             Inl e \<Rightarrow> Inl e
           | Inr cs \<Rightarrow> Inr (html_Node ''li'' [] (map_set ''class'' ''list-item'' []) (cs @ bare_text text)))
      | Quote \<Rightarrow>
          (case convert_children children of
             Inl e \<Rightarrow> Inl e
           | Inr cs \<Rightarrow> Inr (html_Node ''blockquote'' [] (map_set ''class'' ''quote'' []) (cs @ bare_text text)))
      | Table \<Rightarrow>
          (case convert_children children of
             Inl e \<Rightarrow> Inl e
           | Inr cs \<Rightarrow> Inr (html_Node ''table'' [] (map_set ''class'' ''table'' []) cs))
      | TableRow \<Rightarrow>
          (case convert_children children of
             Inl e \<Rightarrow> Inl e
           | Inr cs \<Rightarrow> Inr (html_Node ''tr'' [] (map_set ''class'' ''table-row'' []) cs))
      | TableCell \<Rightarrow>
          (case convert_children children of
             Inl e \<Rightarrow> Inl e
           | Inr cs \<Rightarrow> Inr (html_Node ''td'' [] (map_set ''class'' ''table-cell'' []) (cs @ bare_text text)))
      | Text \<Rightarrow> Inr (html_Node [] text [] [])
      | LineBreak \<Rightarrow> Inr (html_Node ''br'' [] (map_set ''class'' ''line-break'' []) [])
      | HorizontalRule \<Rightarrow> Inr (html_Node ''hr'' [] (map_set ''class'' ''horizontal-rule'' []) []))"
| "convert_children [] = Inr []"
| "convert_children (child # children) =
     (case convert_to_html_node child of
        Inl e \<Rightarrow> Inl e
      | Inr c \<Rightarrow> (case convert_children children of Inl e \<Rightarrow> Inl e | Inr cs \<Rightarrow> Inr (c # cs)))"

text \<open>
  \<open>serialize_markdown_node\<close>: the text written to the stream, or the exception.
  \<open>std::string(level, '#')\<close> throws \<open>std::length_error\<close> for a negative level.  The
  children's outputs are collected first and put together as the loop of each case does.
\<close>

definition is_block :: "NodeType \<Rightarrow> bool" where
  "is_block t \<longleftrightarrow> t \<in> {Paragraph, Heading, CodeBlock, List, Quote, Table, HorizontalRule}"

fun serialize_markdown_node :: "md_Node \<Rightarrow> nat \<Rightarrow> error + string"
  and serialize_children :: "md_Node list \<Rightarrow> nat \<Rightarrow> error + string list"
where
  "serialize_markdown_node (md_Node type text attributes children level) depth =
     (case type of
        Document \<Rightarrow>
          (case serialize_children children depth of
             Inl e \<Rightarrow> Inl e
           | Inr outs \<Rightarrow>
               Inr (concat (map (\<lambda>(child, out). out @ (if is_block (md_type child) then ''\<newline>'' else []))
                                (zip children outs))))
      | Heading \<Rightarrow>
          (if level < 0 then Inl length_error
           else Inr (replicate (nat level) CHR ''#'' @ '' '' @ text @ ''\<newline>''))
      | Paragraph \<Rightarrow>
          (case serialize_children children depth of
             Inl e \<Rightarrow> Inl e
           | Inr outs \<Rightarrow> Inr (concat outs @ text @ ''\<newline>''))
      | CodeBlock \<Rightarrow>
          Inr ([CHR 0x60, CHR 0x60, CHR 0x60]
               @ (case map_of attributes ''language'' of Some language \<Rightarrow> language | None \<Rightarrow> [])
               @ ''\<newline>'' @ text @ ''\<newline>'' @ [CHR 0x60, CHR 0x60, CHR 0x60] @ ''\<newline>'')
      | InlineCode \<Rightarrow> Inr ([CHR 0x60] @ text @ [CHR 0x60])
      | Bold \<Rightarrow>
          (case serialize_children children depth of
             Inl e \<Rightarrow> Inl e
           | Inr outs \<Rightarrow> Inr (''**'' @ concat outs @ text @ ''**''))
      | Italic \<Rightarrow>
          (case serialize_children children depth of
             Inl e \<Rightarrow> Inl e
           | Inr outs \<Rightarrow> Inr (''*'' @ concat outs @ text @ ''*''))
      | Link \<Rightarrow>
          (case map_of attributes ''href'' of
             None \<Rightarrow> Inl out_of_range
           | Some href \<Rightarrow> Inr (''['' @ text @ '']('' @ href @ '')''))
      | Image \<Rightarrow>
          (case map_of attributes ''alt'' of
             None \<Rightarrow> Inl out_of_range
           | Some alt \<Rightarrow>
               (case map_of attributes ''src'' of
                  None \<Rightarrow> Inl out_of_range
                | Some src \<Rightarrow> Inr (''!['' @ alt @ '']('' @ src @ '')'')))
      | List \<Rightarrow>
          (case serialize_children children depth of
             Inl e \<Rightarrow> Inl e
           | Inr outs \<Rightarrow> Inr (concat outs))
      | ListItem \<Rightarrow>
          (case serialize_children children (depth + 1) of
             Inl e \<Rightarrow> Inl e
           | Inr outs \<Rightarrow>
               Inr (replicate (depth * 2) CHR '' ''
                    @ (if map_of attributes ''ordered'' = Some ''true'' then ''1. '' else ''- '')
                    @ concat outs @ text @ ''\<newline>''))
      | Quote \<Rightarrow>
          (case serialize_children children depth of
             Inl e \<Rightarrow> Inl e
           | Inr outs \<Rightarrow> Inr (''> '' @ concat outs @ text @ ''\<newline>''))
      | Table \<Rightarrow>
          (case serialize_children children depth of
             Inl e \<Rightarrow> Inl e
           | Inr outs \<Rightarrow>
               Inr (case outs of
                      [] \<Rightarrow> []
                    | first # others \<Rightarrow>
                        first @ ''|'' @ concat (map (\<lambda>cell. '' --- |'') (md_children (hd children)))
                        @ ''\<newline>'' @ concat others))
      | TableRow \<Rightarrow>
          (case serialize_children children depth of
             Inl e \<Rightarrow> Inl e
           | Inr outs \<Rightarrow> Inr (''|'' @ concat (map (\<lambda>out. '' '' @ out @ '' |'') outs) @ ''\<newline>''))
      | TableCell \<Rightarrow>
          (case serialize_children children depth of
             Inl e \<Rightarrow> Inl e
           | Inr outs \<Rightarrow> Inr (text @ concat outs))
      | Text \<Rightarrow> Inr text
      | LineBreak \<Rightarrow> Inr (''  \<newline>'')
      | HorizontalRule \<Rightarrow> Inr (''---\<newline>''))"
| "serialize_children [] depth = Inr []"
| "serialize_children (child # children) depth =
     (case serialize_markdown_node child depth of
        Inl e \<Rightarrow> Inl e
      | Inr out \<Rightarrow>
          (case serialize_children children depth of Inl e \<Rightarrow> Inl e | Inr outs \<Rightarrow> Inr (out # outs)))"

text \<open>The public entries \<open>Serializer::markdown\<close> and \<open>Serializer::html\<close>.\<close>

definition Serializer_markdown :: "md_Node \<Rightarrow> error + string" where
  "Serializer_markdown node = serialize_markdown_node node 0"

definition Serializer_html :: "md_Node \<Rightarrow> error + string" where
  "Serializer_html node =
     (case convert_to_html_node node of
        Inl e \<Rightarrow> Inl e
      | Inr html_root \<Rightarrow> Inr (serialize html_root 0))"

text \<open>
  The nodes the serializers visit are the root and the children of a visited node of one of
  the kinds of \<open>visits_children\<close>; the children of the other kinds are never read.
  \<open>html_renderable\<close>: every visited \<open>Link\<close> carries \<open>href\<close> and every visited \<open>Image\<close>
  carries \<open>src\<close> and \<open>alt\<close>.  \<open>markdown_renderable\<close>: moreover no visited \<open>Heading\<close> has a
  negative level.
\<close>

definition visits_children :: "NodeType \<Rightarrow> bool" where
  "visits_children t \<longleftrightarrow>
     t \<in> {Document, Paragraph, Bold, Italic, List, ListItem, Quote, Table, TableRow, TableCell}"

fun html_renderable :: "md_Node \<Rightarrow> bool" where
  "html_renderable (md_Node type text attributes children level) \<longleftrightarrow>
     (type = Link \<longrightarrow> map_of attributes ''href'' \<noteq> None)
     \<and> (type = Image \<longrightarrow> map_of attributes ''src'' \<noteq> None \<and> map_of attributes ''alt'' \<noteq> None)
     \<and> (visits_children type \<longrightarrow> (\<forall>child \<in> set children. html_renderable child))"

fun markdown_renderable :: "md_Node \<Rightarrow> bool" where
  "markdown_renderable (md_Node type text attributes children level) \<longleftrightarrow>
     (type = Link \<longrightarrow> map_of attributes ''href'' \<noteq> None)
     \<and> (type = Image \<longrightarrow> map_of attributes ''src'' \<noteq> None \<and> map_of attributes ''alt'' \<noteq> None)
     \<and> (type = Heading \<longrightarrow> 0 \<le> level)
     \<and> (visits_children type \<longrightarrow> (\<forall>child \<in> set children. markdown_renderable child))"

text \<open>
  The same conditions on every node of the tree, visited or not; they hold of what the
  parser builds.
\<close>

fun well_formed :: "md_Node \<Rightarrow> bool" where
  "well_formed (md_Node type text attributes children level) \<longleftrightarrow>
     (type = Link \<longrightarrow> map_of attributes ''href'' \<noteq> None)
     \<and> (type = Image \<longrightarrow> map_of attributes ''src'' \<noteq> None \<and> map_of attributes ''alt'' \<noteq> None)
     \<and> (type = Heading \<longrightarrow> 0 \<le> level)
     \<and> (\<forall>child \<in> set children. well_formed child)"

section \<open>Properties\<close>

subsection \<open>Entity codec\<close>

lemma unescape_escape: "unescape_html (escape_html t) = t"
  by (induction t) auto

lemma escape_html_no_reserved:
  "set (escape_html t) \<inter> {CHR ''<'', CHR ''>'', CHR 0x22, CHR 0x27} = {}"
  by (induction t) auto

lemma escape_html_amp_entity:
  "i < length (escape_html t) \<Longrightarrow> escape_html t ! i = CHR ''&'' \<Longrightarrow>
   \<exists>e \<in> set entities. prefix e (drop i (escape_html t))"
proof (induction t arbitrary: i)
  case Nil
  then show ?case by simp
next
  case (Cons c cs)
  define e where "e = (if c = CHR ''&'' then ''&amp;''
      else if c = CHR ''<'' then ''&lt;''
      else if c = CHR ''>'' then ''&gt;''
      else if c = CHR 0x22 then ''&quot;''
      else if c = CHR 0x27 then ''&#39;''
      else [c])"
  have out: "escape_html (c # cs) = e @ escape_html cs"
    by (simp add: e_def)
  note p = Cons.prems[unfolded out]
  show ?case
  proof (cases "i < length e")
    case True
    have amp: "\<And>j. j < length e \<Longrightarrow> e ! j = CHR ''&'' \<Longrightarrow> j = 0 \<and> e \<in> set entities"
      by (auto simp: e_def entities_def nth_Cons' split: if_splits)
    from p True have "e ! i = CHR ''&''"
      by (simp add: nth_append)
    with amp True have "i = 0" "e \<in> set entities"
      by blast+
    then show ?thesis
      unfolding out by (auto intro!: bexI[of _ e])
  next
    case False
    from p False have "i - length e < length (escape_html cs)"
      "escape_html cs ! (i - length e) = CHR ''&''"
      by (auto simp: nth_append)
    from Cons.IH[OF this] obtain e' where
      "e' \<in> set entities" "prefix e' (drop (i - length e) (escape_html cs))"
      by blast
    with False show ?thesis
      unfolding out by (auto intro!: bexI[of _ e'])
  qed
qed

text \<open>
  Claim C2.  For every text \<open>t\<close> whose characters are drawn from the five reserved
  characters, the ASCII letters, the digits and the space, unescaping the escaped text gives
  \<open>t\<close> back.
\<close>

theorem C2_unescape_escape_roundtrip:
  "set t \<subseteq> codec_alphabet \<Longrightarrow> unescape_html (escape_html t) = t"
  by (rule unescape_escape)

theorem C2_unescape_escape_roundtrip_witness:
  "set ''a < b && 'x' > 9'' \<subseteq> codec_alphabet
   \<and> unescape_html (escape_html ''a < b && 'x' > 9'') = ''a < b && 'x' > 9''"
  using C2_unescape_escape_roundtrip [of "''a < b && 'x' > 9''"]
  by (simp add: codec_alphabet_def)

text \<open>
  Claim C10.  For every input \<open>t\<close> (any bytes), the escaped text contains none of the
  characters \<open><\<close>, \<open>>\<close>, double quote and single quote, and every \<open>&\<close> in it is the
  first character of one of the five entity sequences.
\<close>

theorem C10_escape_html_entity_clean:
  "set (escape_html t) \<inter> {CHR ''<'', CHR ''>'', CHR 0x22, CHR 0x27} = {}
   \<and> (\<forall>i < length (escape_html t). escape_html t ! i = CHR ''&''
        \<longrightarrow> (\<exists>e \<in> set entities. prefix e (drop i (escape_html t))))"
proof (intro conjI allI impI)
  show "set (escape_html t) \<inter> {CHR ''<'', CHR ''>'', CHR 0x22, CHR 0x27} = {}"
    by (rule escape_html_no_reserved)
next
  fix i
  assume "i < length (escape_html t)" "escape_html t ! i = CHR ''&''"
  then show "\<exists>e \<in> set entities. prefix e (drop i (escape_html t))"
    by (rule escape_html_amp_entity)
qed

theorem C10_escape_html_entity_clean_witness:
  "escape_html ''<a&'' = ''&lt;a&amp;''
   \<and> set (escape_html ''<a&'') \<inter> {CHR ''<'', CHR ''>'', CHR 0x22, CHR 0x27} = {}
   \<and> (5::nat) < length (escape_html ''<a&'') \<and> escape_html ''<a&'' ! 5 = CHR ''&''
   \<and> (\<exists>e \<in> set entities. prefix e (drop 5 (escape_html ''<a&'')))"
proof -
  note w = C10_escape_html_entity_clean [of "''<a&''"]
  have v: "escape_html ''<a&'' = ''&lt;a&amp;''"
    by simp
  have h1: "(5::nat) < length (escape_html ''<a&'')"
    by simp
  have h2: "escape_html ''<a&'' ! 5 = CHR ''&''"
    by simp
  note a = conjunct1 [OF w]
  note b = conjunct2 [OF w, rule_format, OF h1 h2]
  show ?thesis
    by (intro conjI) (rule v, rule a, rule h1, rule h2, rule b)
qed

subsection \<open>The attribute map\<close>

lemma starts_at_prefix: "starts_at p s \<longleftrightarrow> prefix p s"
  by (induction p s rule: starts_at.induct) auto

lemma str_find_0: "str_find s p = Some 0 \<longleftrightarrow> prefix p s"
  by (cases s) (auto simp: starts_at_prefix)

lemma map_set_keys: "set (map fst (map_set k v m)) = insert k (set (map fst m))"
proof (induction m)
  case Nil
  then show ?case by simp
next
  case (Cons a m)
  obtain k' v' where a: "a = (k', v')" by (cases a)
  from Cons.IH show ?case
    unfolding a by (cases "k < k'"; cases "k = k'") (simp_all add: insert_commute)
qed

lemma map_inv_empty: "map_inv []"
  by (simp add: map_inv_def)

lemma map_inv_map_set: "map_inv m \<Longrightarrow> map_inv (map_set k v m)"
proof (induction m)
  case Nil
  then show ?case by (simp add: map_inv_def)
next
  case (Cons a m)
  obtain k' v' where a: "a = (k', v')" by (cases a)
  from Cons.prems have inv: "map_inv m" and lt: "\<forall>x \<in> set (map fst m). k' < x"
    by (auto simp: map_inv_def a less_le)
  have keys: "set (map fst (map_set k v m)) = insert k (set (map fst m))"
    by (rule map_set_keys)
  from Cons.IH[OF inv] have ih: "sorted (map fst (map_set k v m))" "distinct (map fst (map_set k v m))"
    by (auto simp: map_inv_def)
  show ?case
  proof (cases "k < k'")
    case True
    with Cons.prems lt show ?thesis
      by (auto simp: map_inv_def a less_le)
  next
    case False
    note nlt = this
    show ?thesis
    proof (cases "k = k'")
      case True
      with Cons.prems show ?thesis by (auto simp: map_inv_def a)
    next
      case False
      with nlt have "k' < k" by auto
      with False nlt lt ih keys show ?thesis
        by (auto simp: map_inv_def a less_le simp del: map_map)
    qed
  qed
qed

lemma map_of_map_set: "map_inv m \<Longrightarrow> map_of (map_set k v m) = (map_of m)(k \<mapsto> v)"
proof (induction m)
  case Nil
  then show ?case by simp
next
  case (Cons a m)
  obtain k' v' where a: "a = (k', v')" by (cases a)
  from Cons.prems have inv: "map_inv m" and lt: "\<forall>x \<in> set (map fst m). k' < x"
    by (auto simp: map_inv_def a less_le)
  show ?case using Cons.IH[OF inv] lt
    by (auto simp: a fun_upd_twist)
qed

subsection \<open>Tag-tree serializer\<close>

lemma verbatim_condition:
  "(case map_of attributes ''class'' of
      None \<Rightarrow> escape_html tx
    | Some class_attr \<Rightarrow>
        if tag = ''code'' \<and> class_attr \<noteq> [] \<and> str_find class_attr ''language-'' = Some 0
        then tx else escape_html tx)
   = (if tag = ''code'' \<and> (\<exists>class_attr. map_of attributes ''class'' = Some class_attr
                                \<and> prefix ''language-'' class_attr)
      then tx else escape_html tx)"
proof (cases "map_of attributes ''class''")
  case None
  then show ?thesis by simp
next
  case (Some class_attr)
  have "prefix ''language-'' class_attr \<Longrightarrow> class_attr \<noteq> []"
    by auto
  then show ?thesis
    unfolding Some by (auto simp: str_find_0)
qed

text \<open>
  Claim C6.  The serializer escapes a node's text through the entity codec unless the tag is
  \<open>code\<close> and the \<open>class\<close> attribute begins with \<open>language-\<close>; then the text is emitted
  verbatim.  For an element that is not self-closing the whole output is given; a bare text
  node (empty tag) is always escaped.
\<close>

theorem C6_text_escaping:
  "(tag \<noteq> [] \<and> tag \<notin> {''img'', ''hr'', ''br''} \<longrightarrow>
      serialize (html_Node tag text attributes children) indent_level
        = replicate (indent_level * 2) CHR '' '' @ ''<'' @ tag
          @ concat (map render_attribute attributes) @ ''>''
          @ (if tag = ''code'' \<and> (\<exists>class_attr. map_of attributes ''class'' = Some class_attr
                                       \<and> prefix ''language-'' class_attr)
             then text else escape_html text)
          @ concat (map (\<lambda>child. if tag \<in> inline_tags then serialize child 0
                                 else ''\<newline>'' @ serialize child (indent_level + 1)) children)
          @ (if children \<noteq> [] \<and> tag \<notin> inline_tags
             then ''\<newline>'' @ replicate (indent_level * 2) CHR '' '' else [])
          @ ''</'' @ tag @ ''>'')
   \<and> (text \<noteq> [] \<longrightarrow>
        serialize (html_Node [] text attributes children) indent_level
          = replicate (indent_level * 2) CHR '' '' @ escape_html text)"
proof (intro conjI impI)
  assume a: "tag \<noteq> [] \<and> tag \<notin> {''img'', ''hr'', ''br''}"
  have m: "map (\<lambda>child. (if \<not> tag \<in> inline_tags then ''\<newline>'' else [])
                 @ serialize child (if tag \<in> inline_tags then 0 else indent_level + 1)) children
         = map (\<lambda>child. if tag \<in> inline_tags then serialize child 0
                        else ''\<newline>'' @ serialize child (indent_level + 1)) children"
    by (rule map_cong) auto
  have e: "escape_html [] = []" by simp
  show "serialize (html_Node tag text attributes children) indent_level
        = replicate (indent_level * 2) CHR '' '' @ ''<'' @ tag
          @ concat (map render_attribute attributes) @ ''>''
          @ (if tag = ''code'' \<and> (\<exists>class_attr. map_of attributes ''class'' = Some class_attr
                                       \<and> prefix ''language-'' class_attr)
             then text else escape_html text)
          @ concat (map (\<lambda>child. if tag \<in> inline_tags then serialize child 0
                                 else ''\<newline>'' @ serialize child (indent_level + 1)) children)
          @ (if children \<noteq> [] \<and> tag \<notin> inline_tags
             then ''\<newline>'' @ replicate (indent_level * 2) CHR '' '' else [])
          @ ''</'' @ tag @ ''>''"
  proof (cases "text = []")
    case True
    with a show ?thesis
      unfolding m[symmetric]
      by (simp add: self_closing_tags_def Let_def)
  next
    case False
    with a show ?thesis
      unfolding m[symmetric] verbatim_condition[symmetric]
      by (simp add: self_closing_tags_def Let_def)
  qed
next
  assume "text \<noteq> []"
  then show "serialize (html_Node [] text attributes children) indent_level
          = replicate (indent_level * 2) CHR '' '' @ escape_html text"
    by simp
qed

theorem C6_text_escaping_witness:
  "''code'' \<noteq> [] \<and> ''code'' \<notin> {''img'', ''hr'', ''br''}
   \<and> serialize (html_Node ''code'' ''a<b'' [(''class'', ''language-c'')] []) 0
       = ''<code class='' @ [CHR 0x22] @ ''language-c'' @ [CHR 0x22] @ ''>a<b</code>''
   \<and> serialize (html_Node ''code'' ''a<b'' [(''class'', ''inline-code'')] []) 0
       = ''<code class='' @ [CHR 0x22] @ ''inline-code'' @ [CHR 0x22] @ ''>a&lt;b</code>''
   \<and> ''a<b'' \<noteq> []
   \<and> serialize (html_Node [] ''a<b'' [] []) 1 = ''  a&lt;b''"
proof -
  have h: "''code'' \<noteq> [] \<and> ''code'' \<notin> {''img'', ''hr'', ''br''}"
    by simp
  have t: "''a<b'' \<noteq> []"
    by simp
  note w1 = C6_text_escaping [of "''code''" "''a<b''" "[(''class'', ''language-c'')]" "[]" 0]
  note w2 = C6_text_escaping [of "''code''" "''a<b''" "[(''class'', ''inline-code'')]" "[]" 0]
  note w3 = C6_text_escaping [of "[]" "''a<b''" "[]" "[]" 1]
  have a: "serialize (html_Node ''code'' ''a<b'' [(''class'', ''language-c'')] []) 0
       = ''<code class='' @ [CHR 0x22] @ ''language-c'' @ [CHR 0x22] @ ''>a<b</code>''"
    using conjunct1 [OF w1, rule_format, OF h]
    by (simp add: render_attribute_def inline_tags_def del: serialize.simps)
  have b: "serialize (html_Node ''code'' ''a<b'' [(''class'', ''inline-code'')] []) 0
       = ''<code class='' @ [CHR 0x22] @ ''inline-code'' @ [CHR 0x22] @ ''>a&lt;b</code>''"
    using conjunct1 [OF w2, rule_format, OF h]
    by (simp add: render_attribute_def inline_tags_def del: serialize.simps)
  have c: "serialize (html_Node [] ''a<b'' [] []) 1 = ''  a&lt;b''"
    using conjunct2 [OF w3, rule_format, OF t]
    by (simp del: serialize.simps add: numeral_2_eq_2)
  show ?thesis
    by (intro conjI) (rule h[THEN conjunct1], rule h[THEN conjunct2], rule a, rule b, rule t, rule c)
qed

lemma map_inv_fold:
  "map_inv m \<Longrightarrow> map_inv (fold (\<lambda>kv. map_set (fst kv) (snd kv)) kvs m)"
  by (induction kvs arbitrary: m) (simp_all add: map_inv_map_set)

lemma map_inv_assignments: "map_inv (assignments kvs)"
  unfolding assignments_def by (rule map_inv_fold) (rule map_inv_empty)

text \<open>
  Claim C7.  For a node whose tag is \<open>img\<close>, \<open>hr\<close> or \<open>br\<close>, whatever assignments built its
  attribute map, the output is the indentation, the opening tag with the attributes in
  ascending order of their keys and with escaped values, and \<open>" />"\<close>: it ends in \<open>" />"\<close>
  and nothing of the node's text or children occurs in it, whatever they are.
\<close>

theorem C7_self_closing:
  "tag \<in> {''img'', ''hr'', ''br''} \<and> attributes = assignments kvs \<longrightarrow>
     serialize (html_Node tag text attributes children) indent_level
       = replicate (indent_level * 2) CHR '' '' @ ''<'' @ tag
         @ concat (map (\<lambda>(key, value). '' '' @ key @ ''='' @ [CHR 0x22] @ escape_html value @ [CHR 0x22])
                     attributes)
         @ '' />''
     \<and> sorted (map fst attributes) \<and> distinct (map fst attributes)
     \<and> suffix '' />'' (serialize (html_Node tag text attributes children) indent_level)"
proof (intro impI, elim conjE)
  assume t: "tag \<in> {''img'', ''hr'', ''br''}" and at: "attributes = assignments kvs"
  from t have ne: "tag \<noteq> []" by auto
  have ra: "render_attribute = (\<lambda>(key, value). '' '' @ key @ ''='' @ [CHR 0x22] @ escape_html value @ [CHR 0x22])"
    by (auto simp: render_attribute_def fun_eq_iff)
  have eq: "serialize (html_Node tag text attributes children) indent_level
       = replicate (indent_level * 2) CHR '' '' @ ''<'' @ tag
         @ concat (map (\<lambda>(key, value). '' '' @ key @ ''='' @ [CHR 0x22] @ escape_html value @ [CHR 0x22])
                     attributes)
         @ '' />''"
    using t ne unfolding ra[symmetric] by (simp add: self_closing_tags_def Let_def)
  have suf: "suffix '' />'' (serialize (html_Node tag text attributes children) indent_level)"
    unfolding eq by (simp only: append_assoc[symmetric] suffix_appendI suffix_order.refl suffixI)
  from map_inv_assignments[of kvs] at have "sorted (map fst attributes) \<and> distinct (map fst attributes)"
    by (simp add: map_inv_def)
  with eq suf show "serialize (html_Node tag text attributes children) indent_level
       = replicate (indent_level * 2) CHR '' '' @ ''<'' @ tag
         @ concat (map (\<lambda>(key, value). '' '' @ key @ ''='' @ [CHR 0x22] @ escape_html value @ [CHR 0x22])
                     attributes)
         @ '' />''
     \<and> sorted (map fst attributes) \<and> distinct (map fst attributes)
     \<and> suffix '' />'' (serialize (html_Node tag text attributes children) indent_level)"
    by blast
qed

theorem C7_self_closing_witness:
  "(''img'' \<in> {''img'', ''hr'', ''br''}
    \<and> [(''alt'', ''x<y''), (''src'', ''a.png'')] = assignments [(''src'', ''a.png''), (''alt'', ''x<y'')])
   \<and> serialize (html_Node ''img'' ''ignored'' [(''alt'', ''x<y''), (''src'', ''a.png'')]
                    [html_Node ''b'' ''child'' [] []]) 0
       = ''<img alt='' @ [CHR 0x22] @ ''x&lt;y'' @ [CHR 0x22] @ '' src='' @ [CHR 0x22] @ ''a.png''
         @ [CHR 0x22] @ '' />''"
proof -
  have h: "''img'' \<in> {''img'', ''hr'', ''br''}
    \<and> [(''alt'', ''x<y''), (''src'', ''a.png'')] = assignments [(''src'', ''a.png''), (''alt'', ''x<y'')]"
    by code_simp
  note w = C7_self_closing [of "''img''" "[(''alt'', ''x<y''), (''src'', ''a.png'')]"
      "[(''src'', ''a.png''), (''alt'', ''x<y'')]" "''ignored''"
      "[html_Node ''b'' ''child'' [] []]" 0, rule_format, OF h]
  have r: "serialize (html_Node ''img'' ''ignored'' [(''alt'', ''x<y''), (''src'', ''a.png'')]
                    [html_Node ''b'' ''child'' [] []]) 0
       = ''<img alt='' @ [CHR 0x22] @ ''x&lt;y'' @ [CHR 0x22] @ '' src='' @ [CHR 0x22] @ ''a.png''
         @ [CHR 0x22] @ '' />''"
    using conjunct1 [OF w] by (simp del: serialize.simps)
  from h r show ?thesis
    by (rule conjI)
qed

subsection \<open>Tag-tree parser\<close>







lemma parse_attributes_stop:
  "parse_attributes s a = (attrs, s') \<Longrightarrow> s' = [] \<or> hd s' = CHR ''>'' \<or> hd s' = CHR ''/''"
proof (induction s a rule: parse_attributes.induct)
  case (1 s attributes)
  show ?case
  proof (cases "s \<noteq> [] \<and> hd s \<noteq> CHR ''>'' \<and> hd s \<noteq> CHR ''/''")
    case True
    obtain key v rest where st: "attribute_step s = (key, v, rest)"
      by (cases "attribute_step s") auto
    from "1.prems" True st
    have "parse_attributes rest (if key \<noteq> [] then map_set key v attributes else attributes) = (attrs, s')"
      by (subst (asm) parse_attributes.simps) simp
    from "1.IH"[OF True st[symmetric] refl this] show ?thesis .
  next
    case False
    with "1.prems" show ?thesis
      by (subst (asm) parse_attributes.simps) auto
  qed
qed









lemma h_tag_set_text [simp]: "h_tag (set_text node t) = h_tag node"
  by (simp add: set_text_def)

lemma h_tag_push_child [simp]: "h_tag (push_child node c) = h_tag node"
  by (simp add: push_child_def)





















text \<open>
  Claim C9 (evaluation at the failing input).  The text run \<open>" a "\<close> that precedes the child
  \<open><b>\<close> is stored on \<open><p>\<close> unescaped but with its white space: only the run after the
  last child is trimmed.
\<close>

theorem C9_text_before_child_not_trimmed:
  "deserialize ''<p> a <b>x</b></p>''
     = Some (Inr (html_Node ''p'' '' a '' [] [html_Node ''b'' ''x'' [] []]))"
  by code_simp

subsection \<open>Markup serializers\<close>

text \<open>
  Claim C1 (counterexample).  A hand-constructed \<open>Link\<close> node with no \<open>href\<close> attribute:
  both \<open>render_html\<close> and \<open>render_markdown\<close> raise \<open>std::out_of_range\<close> instead of
  returning a string.
\<close>

theorem C1_link_without_href_throws:
  "Serializer_html (md_Node Link ''x'' [] [] 0) = Inl out_of_range
   \<and> Serializer_markdown (md_Node Link ''x'' [] [] 0) = Inl out_of_range"
  by (simp add: Serializer_html_def Serializer_markdown_def)

lemma convert_iff:
  shows "(\<exists>h. convert_to_html_node node = Inr h) \<longleftrightarrow> html_renderable node"
    and "(\<exists>hs. convert_children nodes = Inr hs) \<longleftrightarrow> (\<forall>child \<in> set nodes. html_renderable child)"
proof (induction node and nodes rule: convert_to_html_node_convert_children.induct)
  case (1 type tx attributes children level)
  then show ?case
    by (cases type) (auto simp: visits_children_def split: sum.splits option.splits)
next
  case 2
  then show ?case by simp
next
  case (3 child children)
  then show ?case
    by (auto split: sum.splits)
qed

lemma serialize_iff:
  shows "(\<exists>s. serialize_markdown_node node depth = Inr s) \<longleftrightarrow> markdown_renderable node"
    and "(\<exists>ss. serialize_children nodes depth = Inr ss)
           \<longleftrightarrow> (\<forall>child \<in> set nodes. markdown_renderable child)"
proof (induction node depth and nodes depth rule: serialize_markdown_node_serialize_children.induct)
  case (1 type tx attributes children level depth)
  then show ?case
    by (cases type) (auto simp: visits_children_def split: sum.splits option.splits)
next
  case 2
  then show ?case by simp
next
  case (3 child children depth)
  then show ?case
    by (auto split: sum.splits)
qed

lemma convert_error:
  shows "convert_to_html_node node = Inl e \<Longrightarrow> e = out_of_range"
    and "convert_children nodes = Inl e \<Longrightarrow> e = out_of_range"
proof (induction node and nodes rule: convert_to_html_node_convert_children.induct)
  case (1 type tx attributes children level)
  then show ?case
    by (cases type) (auto split: sum.splits option.splits)
next
  case 2
  then show ?case by simp
next
  case (3 child children)
  then show ?case
    by (auto split: sum.splits)
qed

lemma serialize_error:
  shows "serialize_markdown_node node depth = Inl e \<Longrightarrow> e = out_of_range \<or> e = length_error"
    and "serialize_children nodes depth = Inl e \<Longrightarrow> e = out_of_range \<or> e = length_error"
proof (induction node depth and nodes depth rule: serialize_markdown_node_serialize_children.induct)
  case (1 type tx attributes children level depth)
  then show ?case
    by (cases type) (auto split: sum.splits option.splits if_splits)
next
  case 2
  then show ?case by simp
next
  case (3 child children depth)
  then show ?case
    by (auto split: sum.splits)
qed

lemma well_formed_renderable: "well_formed node \<Longrightarrow> html_renderable node \<and> markdown_renderable node"
  by (induction node rule: well_formed.induct) auto

lemma link_without_href:
  assumes "map_of attributes ''href'' = None"
  shows "Serializer_html (md_Node Link tx attributes children level) = Inl out_of_range"
    and "Serializer_markdown (md_Node Link tx attributes children level) = Inl out_of_range"
  using assms by (simp_all add: Serializer_html_def Serializer_markdown_def)

lemma image_without_src_or_alt:
  assumes "map_of attributes ''src'' = None \<or> map_of attributes ''alt'' = None"
  shows "Serializer_html (md_Node Image tx attributes children level) = Inl out_of_range"
    and "Serializer_markdown (md_Node Image tx attributes children level) = Inl out_of_range"
  using assms by (auto simp: Serializer_html_def Serializer_markdown_def split: option.splits)

lemma heading_negative_level:
  assumes "level < 0"
  shows "Serializer_markdown (md_Node Heading tx attributes children level) = Inl length_error"
    and "\<exists>s. Serializer_html (md_Node Heading tx attributes children level) = Inr s"
  using assms by (simp_all add: Serializer_html_def Serializer_markdown_def)

text \<open>Every node that the parser builds carries the attributes the serializers read.\<close>

lemma well_formed_text_node: "t \<noteq> Link \<Longrightarrow> t \<noteq> Image \<Longrightarrow> t \<noteq> Heading \<Longrightarrow> well_formed (text_node t s)"
  by (simp add: text_node_def)

lemma well_formed_link: "well_formed (set_attribute (text_node Link a) ''href'' b)"
  by (simp add: text_node_def set_attribute_def)

lemma well_formed_image:
  "well_formed (set_attribute (set_attribute (new_node Image) ''alt'' a) ''src'' b)"
  by (simp add: new_node_def set_attribute_def)

lemma well_formed_inline_loop: "\<forall>n \<in> set (parse_inline_loop s). well_formed n"
proof (induction s rule: parse_inline_loop.induct)
  case (1 s)
  show ?case
    apply (subst parse_inline_loop.simps)
    using 1 well_formed_link well_formed_image
    by (auto simp: well_formed_text_node split: option.splits prod.splits)
qed

lemma well_formed_add_children:
  "well_formed parent \<Longrightarrow> \<forall>n \<in> set nodes. well_formed n \<Longrightarrow> well_formed (add_children parent nodes)"
  by (cases parent) (auto simp: add_children_def)

lemma well_formed_parse_inline:
  "well_formed parent \<Longrightarrow> well_formed (parse_inline s parent)"
  unfolding parse_inline_def Let_def
  using well_formed_inline_loop[of s]
  by (auto intro!: well_formed_add_children simp: well_formed_text_node)

lemma well_formed_new_node: "t \<noteq> Link \<Longrightarrow> t \<noteq> Image \<Longrightarrow> well_formed (new_node t)"
  by (simp add: new_node_def)

lemma well_formed_set_attribute:
  "well_formed n \<Longrightarrow> md_type n \<noteq> Link \<Longrightarrow> md_type n \<noteq> Image \<Longrightarrow> well_formed (set_attribute n k v)"
  by (cases n) (simp add: set_attribute_def)

lemma well_formed_list_item: "well_formed (list_item ord m)"
  unfolding list_item_def
  by (rule well_formed_parse_inline) (simp add: new_node_def set_attribute_def)

lemma well_formed_list_items: "\<forall>n \<in> set (fst (list_items ord ls)). well_formed n"
  by (induction ls) (auto simp: well_formed_list_item split: option.splits prod.splits)

lemma well_formed_table_cells: "\<forall>n \<in> set (table_cells l). well_formed n"
  unfolding table_cells_def Let_def
  by (auto intro!: well_formed_parse_inline well_formed_new_node split: if_splits)

lemma well_formed_table_rows: "\<forall>n \<in> set (fst (table_rows ls)). well_formed n"
proof (induction ls)
  case Nil
  then show ?case by simp
next
  case (Cons l ls)
  have row: "well_formed (add_children (new_node TableRow) (table_cells l))"
    by (rule well_formed_add_children) (simp_all add: well_formed_new_node well_formed_table_cells)
  from Cons row show ?case
    by (auto split: prod.splits if_splits)
qed

lemma well_formed_parse_block: "\<forall>n \<in> set (fst (parse_block ls)). well_formed n"
proof (cases ls)
  case Nil
  then show ?thesis by (simp add: parse_block_def)
next
  case (Cons line rest)
  have a: "well_formed (add_children (new_node List) (fst (list_items ord ls')))" for ord ls'
    by (rule well_formed_add_children) (simp_all add: well_formed_new_node well_formed_list_items)
  have b: "well_formed (add_children (new_node Table) (fst (table_rows ls')))" for ls'
    by (rule well_formed_add_children) (simp_all add: well_formed_new_node well_formed_table_rows)
  have c: "well_formed (parse_inline s (new_node Quote))" "well_formed (parse_inline s (new_node Paragraph))" for s
    by (rule well_formed_parse_inline, simp add: well_formed_new_node)+
  have d: "well_formed (set_attribute (text_node CodeBlock s) k v)" "well_formed (text_node CodeBlock s)" for s k v
    by (simp_all add: text_node_def set_attribute_def)
  have e: "list_items ord ls' = (x, y) \<Longrightarrow> well_formed (add_children (new_node List) x)" for ord ls' x y
    using a[of ord ls'] by simp
  have f: "table_rows ls' = (x, y) \<Longrightarrow> well_formed (add_children (new_node Table) x)" for ls' x y
    using b[of ls'] by simp
  show ?thesis
    unfolding Cons parse_block_def using c d e f
    by (auto split: option.splits prod.splits simp: well_formed_new_node
        simp del: list_items.simps table_rows.simps)
qed

lemma well_formed_parse_blocks: "\<forall>n \<in> set (parse_blocks ls). well_formed n"
proof (induction ls rule: parse_blocks.induct)
  case (1 ls)
  show ?case
  proof (cases "ls = []")
    case True
    then show ?thesis by (subst parse_blocks.simps) simp
  next
    case False
    obtain nodes rest where pb: "parse_block ls = (nodes, rest)"
      by (cases "parse_block ls") auto
    from well_formed_parse_block[of ls] pb have "\<forall>n \<in> set nodes. well_formed n"
      by simp
    moreover from 1[OF False pb[symmetric]] have "\<forall>n \<in> set (parse_blocks rest). well_formed n" .
    ultimately show ?thesis
      using False pb by (subst parse_blocks.simps) auto
  qed
qed

lemma well_formed_md_deserialize: "well_formed (md_deserialize markdown)"
  unfolding md_deserialize_def
  by (rule well_formed_add_children) (simp_all add: well_formed_new_node well_formed_parse_blocks)

text \<open>
  Claim C1 (as amended).  \<open>render_html\<close> returns a string exactly on the nodes in which every
  \<open>Link\<close> it visits carries \<open>href\<close> and every \<open>Image\<close> it visits carries \<open>src\<close> and \<open>alt\<close>, and
  raises \<open>std::out_of_range\<close> on the others; \<open>render_markdown\<close> returns a string exactly on
  the nodes in which, moreover, no \<open>Heading\<close> it visits has a negative level, and raises
  \<open>std::out_of_range\<close> or \<open>std::length_error\<close> on the others.  So every \<open>Link\<close> without
  \<open>href\<close> and every \<open>Image\<close> without \<open>src\<close> or without \<open>alt\<close> makes both raise
  \<open>std::out_of_range\<close>, every \<open>Heading\<close> with a negative level makes \<open>render_markdown\<close> raise
  \<open>std::length_error\<close> while \<open>render_html\<close> returns a string, and both return a string on
  every document that \<open>parse_markdown\<close> builds.
\<close>

theorem C1_renderable_nodes_render:
  "((\<exists>s. Serializer_html node = Inr s) \<longleftrightarrow> html_renderable node)
   \<and> ((\<exists>s. Serializer_markdown node = Inr s) \<longleftrightarrow> markdown_renderable node)
   \<and> (\<forall>e. Serializer_html node = Inl e \<longrightarrow> e = out_of_range)
   \<and> (\<forall>e. Serializer_markdown node = Inl e \<longrightarrow> e = out_of_range \<or> e = length_error)
   \<and> (map_of attributes ''href'' = None
        \<longrightarrow> Serializer_html (md_Node Link tx attributes children level) = Inl out_of_range
            \<and> Serializer_markdown (md_Node Link tx attributes children level) = Inl out_of_range)
   \<and> (map_of attributes ''src'' = None \<or> map_of attributes ''alt'' = None
        \<longrightarrow> Serializer_html (md_Node Image tx attributes children level) = Inl out_of_range
            \<and> Serializer_markdown (md_Node Image tx attributes children level) = Inl out_of_range)
   \<and> (level < 0
        \<longrightarrow> Serializer_markdown (md_Node Heading tx attributes children level) = Inl length_error
            \<and> (\<exists>s. Serializer_html (md_Node Heading tx attributes children level) = Inr s))
   \<and> html_renderable (md_deserialize markdown)
   \<and> markdown_renderable (md_deserialize markdown)"
proof -
  have a: "(\<exists>s. Serializer_html node = Inr s) \<longleftrightarrow> html_renderable node"
    using convert_iff(1)[of node] by (auto simp: Serializer_html_def split: sum.splits)
  have b: "(\<exists>s. Serializer_markdown node = Inr s) \<longleftrightarrow> markdown_renderable node"
    using serialize_iff(1)[of node 0] by (simp add: Serializer_markdown_def)
  have c: "\<forall>e. Serializer_html node = Inl e \<longrightarrow> e = out_of_range"
    using convert_error(1)[of node] by (auto simp: Serializer_html_def split: sum.splits)
  have d: "\<forall>e. Serializer_markdown node = Inl e \<longrightarrow> e = out_of_range \<or> e = length_error"
    using serialize_error(1)[of node 0] by (simp add: Serializer_markdown_def)
  have e: "map_of attributes ''href'' = None
        \<longrightarrow> Serializer_html (md_Node Link tx attributes children level) = Inl out_of_range
            \<and> Serializer_markdown (md_Node Link tx attributes children level) = Inl out_of_range"
    using link_without_href by blast
  have f: "map_of attributes ''src'' = None \<or> map_of attributes ''alt'' = None
        \<longrightarrow> Serializer_html (md_Node Image tx attributes children level) = Inl out_of_range
            \<and> Serializer_markdown (md_Node Image tx attributes children level) = Inl out_of_range"
    using image_without_src_or_alt by blast
  have g: "level < 0
        \<longrightarrow> Serializer_markdown (md_Node Heading tx attributes children level) = Inl length_error
            \<and> (\<exists>s. Serializer_html (md_Node Heading tx attributes children level) = Inr s)"
    using heading_negative_level by blast
  have h: "html_renderable (md_deserialize markdown)"
    and i: "markdown_renderable (md_deserialize markdown)"
    using well_formed_renderable[OF well_formed_md_deserialize, of markdown] by blast+
  show ?thesis
    by (rule conjI [OF a], rule conjI [OF b], rule conjI [OF c], rule conjI [OF d],
        rule conjI [OF e], rule conjI [OF f], rule conjI [OF g], rule conjI [OF h], rule i)
qed

theorem C1_renderable_nodes_render_witness:
  "html_renderable
     (md_Node Document [] []
        [md_Node Heading ''T'' [] [md_Node Link ''x'' [] [] 0] 1,
         md_Node Link ''l'' [(''href'', ''h'')] [] 0,
         md_Node Image [] [(''alt'', ''a''), (''src'', ''s'')] [] 0] 0)
   \<and> (\<exists>s. Serializer_html
            (md_Node Document [] []
               [md_Node Heading ''T'' [] [md_Node Link ''x'' [] [] 0] 1,
                md_Node Link ''l'' [(''href'', ''h'')] [] 0,
                md_Node Image [] [(''alt'', ''a''), (''src'', ''s'')] [] 0] 0) = Inr s)
   \<and> markdown_renderable
     (md_Node Document [] []
        [md_Node Heading ''T'' [] [md_Node Link ''x'' [] [] 0] 1,
         md_Node Link ''l'' [(''href'', ''h'')] [] 0,
         md_Node Image [] [(''alt'', ''a''), (''src'', ''s'')] [] 0] 0)
   \<and> (\<exists>s. Serializer_markdown
            (md_Node Document [] []
               [md_Node Heading ''T'' [] [md_Node Link ''x'' [] [] 0] 1,
                md_Node Link ''l'' [(''href'', ''h'')] [] 0,
                md_Node Image [] [(''alt'', ''a''), (''src'', ''s'')] [] 0] 0) = Inr s)
   \<and> map_of [(''class'', ''c'')] ''href'' = None
   \<and> Serializer_html (md_Node Link ''x'' [(''class'', ''c'')] [] 0) = Inl out_of_range
   \<and> Serializer_markdown (md_Node Link ''x'' [(''class'', ''c'')] [] 0) = Inl out_of_range
   \<and> map_of [(''src'', ''s'')] ''alt'' = None
   \<and> Serializer_html (md_Node Image [] [(''src'', ''s'')] [] 0) = Inl out_of_range
   \<and> Serializer_markdown (md_Node Image [] [(''src'', ''s'')] [] 0) = Inl out_of_range
   \<and> (- 1 :: int) < 0
   \<and> Serializer_markdown (md_Node Heading ''T'' [] [] (- 1)) = Inl length_error
   \<and> (\<exists>s. Serializer_html (md_Node Heading ''T'' [] [] (- 1)) = Inr s)"
proof -
  let ?doc = "md_Node Document [] []
        [md_Node Heading ''T'' [] [md_Node Link ''x'' [] [] 0] 1,
         md_Node Link ''l'' [(''href'', ''h'')] [] 0,
         md_Node Image [] [(''alt'', ''a''), (''src'', ''s'')] [] 0] 0"
  have h1: "html_renderable ?doc"
    by (simp add: visits_children_def)
  have h2: "markdown_renderable ?doc"
    by (simp add: visits_children_def)
  have h3: "map_of [(''class'', ''c'')] ''href'' = None"
    by simp
  have h4: "map_of [(''src'', ''s'')] ''src'' = None \<or> map_of [(''src'', ''s'')] ''alt'' = None"
    by simp
  have h4': "map_of [(''src'', ''s'')] ''alt'' = None"
    by simp
  have h5: "(- 1 :: int) < 0"
    by simp
  note t1 = C1_renderable_nodes_render [where node = ?doc]
  note t2 = C1_renderable_nodes_render [where attributes = "[(''class'', ''c'')]" and tx = "''x''"
      and children = "[]" and level = 0]
  note t3 = C1_renderable_nodes_render [where attributes = "[(''src'', ''s'')]" and tx = "[]"
      and children = "[]" and level = 0]
  note t4 = C1_renderable_nodes_render [where attributes = "[]" and tx = "''T''"
      and children = "[]" and level = "- 1"]
  have r1: "\<exists>s. Serializer_html ?doc = Inr s"
    using t1 [THEN conjunct1] h1 by (rule iffD2)
  have r2: "\<exists>s. Serializer_markdown ?doc = Inr s"
    using t1 [THEN conjunct2, THEN conjunct1] h2 by (rule iffD2)
  note l = t2 [THEN conjunct2, THEN conjunct2, THEN conjunct2, THEN conjunct2, THEN conjunct1,
      rule_format, OF h3]
  note im = t3 [THEN conjunct2, THEN conjunct2, THEN conjunct2, THEN conjunct2, THEN conjunct2,
      THEN conjunct1, rule_format, OF h4]
  note hd = t4 [THEN conjunct2, THEN conjunct2, THEN conjunct2, THEN conjunct2, THEN conjunct2,
      THEN conjunct2, THEN conjunct1, rule_format, OF h5]
  show ?thesis
    by (rule conjI [OF h1], rule conjI [OF r1], rule conjI [OF h2], rule conjI [OF r2],
        rule conjI [OF h3], rule conjI [OF l [THEN conjunct1]], rule conjI [OF l [THEN conjunct2]],
        rule conjI [OF h4'], rule conjI [OF im [THEN conjunct1]], rule conjI [OF im [THEN conjunct2]],
        rule conjI [OF h5], rule conjI [OF hd [THEN conjunct1]], rule hd [THEN conjunct2])
qed

subsection \<open>Markup parser\<close>

text \<open>
  Claim C3 (evaluation at the failing input).  \<^verbatim>\<open>parse_markdown("text\n# Head")\<close> yields one
  \<open>Paragraph\<close> whose text is \<open>"text # Head"\<close> and no \<open>Heading\<close>: the continuation test
  is a \<open>regex_match\<close> of the whole line against \<^verbatim>\<open>^#{1,6}\s+\<close>, which a heading line with
  a title never satisfies.
\<close>

theorem C3_heading_line_joins_paragraph:
  "md_deserialize ''text\<newline># Head''
     = md_Node Document [] [] [md_Node Paragraph [] [] [md_Node Text ''text # Head'' [] [] 0] 0] 0"
  by code_simp

text \<open>
  Claim C4.  \<open>parse_markdown("![alt](src)")\<close> yields one \<open>Paragraph\<close> holding the text
  \<open>"!"\<close> and then a \<open>Link\<close> with text \<open>"alt"\<close> and \<open>href\<close> \<open>"src"\<close>, not an \<open>Image\<close>: the
  link pattern, tried first, matches from index 1, although the image pattern matches the
  whole text from index 0.
\<close>

theorem C4_image_literal_parsed_as_link:
  "md_deserialize ''![alt](src)''
     = md_Node Document [] []
         [md_Node Paragraph [] []
            [md_Node Text ''!'' [] [] 0, md_Node Link ''alt'' [(''href'', ''src'')] [] 0] 0] 0
   \<and> map_option (\<lambda>(p, l, m). (p, l, m 1, m 2)) (regex_search link_regex ''![alt](src)'')
       = Some (1, 10, ''alt'', ''src'')
   \<and> map_option (\<lambda>(p, l, m). (p, l, m 1, m 2)) (regex_search img_regex ''![alt](src)'')
       = Some (0, 11, ''alt'', ''src'')"
  by code_simp

lemma parse_inline_loop_nonempty: "s \<noteq> [] \<Longrightarrow> parse_inline_loop s \<noteq> []"
  by (subst parse_inline_loop.simps) (simp split: option.splits prod.splits)

lemma parse_inline_fresh:
  "md_children parent = [] \<Longrightarrow>
     parse_inline s parent
       = md_Node (md_type parent) (md_text parent) (md_attributes parent) (parse_inline_loop s)
           (md_level parent)"
proof (cases "s = []")
  case True
  assume "md_children parent = []"
  with True show ?thesis
    by (cases parent) (simp add: parse_inline_def parse_inline_loop.simps[of "[]"])
next
  case False
  assume "md_children parent = []"
  with False parse_inline_loop_nonempty[OF False] show ?thesis
    by (simp add: parse_inline_def add_children_def Let_def)
qed

lemma list_item_eq:
  "list_item is_ordered m
     = md_Node ListItem [] (if is_ordered then [(''ordered'', ''true'')] else [])
         (parse_inline_loop (m 2)) 0"
  by (simp add: list_item_def parse_inline_fresh new_node_def set_attribute_def)

lemma list_items_eq:
  "list_items ord ls = (items, rest) \<Longrightarrow>
     rest = dropWhile (\<lambda>l. list_match l \<noteq> None) ls
     \<and> length items = length (takeWhile (\<lambda>l. list_match l \<noteq> None) ls)
     \<and> (\<forall>i < length items. \<exists>m. list_match (ls ! i) = Some m \<and> items ! i = list_item ord m)"
proof (induction ls arbitrary: items rest)
  case Nil
  then show ?case by simp
next
  case (Cons l ls)
  show ?case
  proof (cases "list_match l")
    case None
    with Cons.prems have "items = []" "rest = l # ls"
      by simp_all
    with None show ?thesis by simp
  next
    case (Some m)
    obtain items' rest' where r: "list_items ord ls = (items', rest')"
      by (cases "list_items ord ls") auto
    with Cons.prems Some have e: "items = list_item ord m # items'" "rest = rest'"
      by simp_all
    note ih = Cons.IH[OF r]
    have "\<exists>m'. list_match ((l # ls) ! i) = Some m' \<and> items ! i = list_item ord m'"
      if "i < length items" for i
    proof (cases i)
      case 0
      with Some e show ?thesis by simp
    next
      case (Suc j)
      with that e have "j < length items'" by simp
      with ih obtain m' where "list_match (ls ! j) = Some m'" "items' ! j = list_item ord m'"
        by blast
      with Suc e show ?thesis by simp
    qed
    with ih Some e show ?thesis
      by simp
  qed
qed

lemma list_block:
  assumes "line \<noteq> []" "regex_match hr_regex line = None"
    "regex_match heading_regex line = None" "regex_match code_open_regex line = None"
    "regex_match quote_regex line = None" "list_match line \<noteq> None"
  shows "\<exists>items.
     parse_block (line # rest)
       = ([md_Node List [] [] items 0], dropWhile (\<lambda>l. list_match l \<noteq> None) (line # rest))
     \<and> length items = length (takeWhile (\<lambda>l. list_match l \<noteq> None) (line # rest))
     \<and> (\<forall>i < length items. \<exists>m.
           list_match ((line # rest) ! i) = Some m
           \<and> items ! i
               = md_Node ListItem []
                   (if regex_match ol_regex line \<noteq> None then [(''ordered'', ''true'')] else [])
                   (parse_inline_loop (m 2)) 0)"
proof -
  obtain items rest' where r: "list_items (regex_match ol_regex line \<noteq> None) (line # rest) = (items, rest')"
    by (cases "list_items (regex_match ol_regex line \<noteq> None) (line # rest)") auto
  from assms r have "parse_block (line # rest) = ([md_Node List [] [] items 0], rest')"
    by (simp add: parse_block_def add_children_def new_node_def del: list_items.simps)
  with list_items_eq[OF r] show ?thesis
    unfolding list_item_eq by blast
qed

text \<open>
  Claim C8.  \<^verbatim>\<open>parse_markdown("- a\n- b\n- c")\<close> is one \<open>List\<close> of three \<open>ListItem\<close>s with
  the texts \<open>a\<close>, \<open>b\<close>, \<open>c\<close> (each as the item's \<open>Text\<close> child) and no attribute.  In
  general, for a line that reaches the list rule (it is not blank and matches none of the
  rule, heading, fence and quote patterns, and it matches a bullet pattern): the block is one
  \<open>List\<close> whose children are one \<open>ListItem\<close> for each of the leading lines that match either
  bullet pattern, the lines after them are left, and every item has the attribute
  \<open>ordered = true\<close> exactly when the first line matches the ordered pattern, and the inline
  nodes of its second capture as children.
\<close>

theorem C8_list_block:
  "md_deserialize ''- a\<newline>- b\<newline>- c''
     = md_Node Document [] []
         [md_Node List [] []
            [md_Node ListItem [] [] [md_Node Text ''a'' [] [] 0] 0,
             md_Node ListItem [] [] [md_Node Text ''b'' [] [] 0] 0,
             md_Node ListItem [] [] [md_Node Text ''c'' [] [] 0] 0] 0] 0
   \<and> (\<forall>line rest.
         line \<noteq> [] \<and> regex_match hr_regex line = None \<and> regex_match heading_regex line = None
         \<and> regex_match code_open_regex line = None \<and> regex_match quote_regex line = None
         \<and> list_match line \<noteq> None
         \<longrightarrow> (\<exists>items.
               parse_block (line # rest)
                 = ([md_Node List [] [] items 0],
                    dropWhile (\<lambda>l. list_match l \<noteq> None) (line # rest))
               \<and> length items = length (takeWhile (\<lambda>l. list_match l \<noteq> None) (line # rest))
               \<and> (\<forall>i < length items. \<exists>m.
                     list_match ((line # rest) ! i) = Some m
                     \<and> items ! i
                         = md_Node ListItem []
                             (if regex_match ol_regex line \<noteq> None then [(''ordered'', ''true'')]
                              else [])
                             (parse_inline_loop (m 2)) 0)))"
proof (rule conjI)
  show "md_deserialize ''- a\<newline>- b\<newline>- c''
     = md_Node Document [] []
         [md_Node List [] []
            [md_Node ListItem [] [] [md_Node Text ''a'' [] [] 0] 0,
             md_Node ListItem [] [] [md_Node Text ''b'' [] [] 0] 0,
             md_Node ListItem [] [] [md_Node Text ''c'' [] [] 0] 0] 0] 0"
    by code_simp
next
  show "\<forall>line rest.
         line \<noteq> [] \<and> regex_match hr_regex line = None \<and> regex_match heading_regex line = None
         \<and> regex_match code_open_regex line = None \<and> regex_match quote_regex line = None
         \<and> list_match line \<noteq> None
         \<longrightarrow> (\<exists>items.
               parse_block (line # rest)
                 = ([md_Node List [] [] items 0],
                    dropWhile (\<lambda>l. list_match l \<noteq> None) (line # rest))
               \<and> length items = length (takeWhile (\<lambda>l. list_match l \<noteq> None) (line # rest))
               \<and> (\<forall>i < length items. \<exists>m.
                     list_match ((line # rest) ! i) = Some m
                     \<and> items ! i
                         = md_Node ListItem []
                             (if regex_match ol_regex line \<noteq> None then [(''ordered'', ''true'')]
                              else [])
                             (parse_inline_loop (m 2)) 0))"
    by (rule allI, rule allI, rule impI, elim conjE) (rule list_block)
qed

theorem C8_list_block_witness:
  "(''1. a'' \<noteq> [] \<and> regex_match hr_regex ''1. a'' = None
    \<and> regex_match heading_regex ''1. a'' = None \<and> regex_match code_open_regex ''1. a'' = None
    \<and> regex_match quote_regex ''1. a'' = None \<and> list_match ''1. a'' \<noteq> None)
   \<and> parse_block [''1. a'', ''- b'', ''c'']
       = ([md_Node List [] []
             [md_Node ListItem [] [(''ordered'', ''true'')] [md_Node Text ''a'' [] [] 0] 0,
              md_Node ListItem [] [(''ordered'', ''true'')] [md_Node Text ''b'' [] [] 0] 0] 0],
          [''c''])
   \<and> (\<exists>items.
         parse_block [''1. a'', ''- b'', ''c'']
           = ([md_Node List [] [] items 0],
              dropWhile (\<lambda>l. list_match l \<noteq> None) [''1. a'', ''- b'', ''c''])
         \<and> length items = length (takeWhile (\<lambda>l. list_match l \<noteq> None) [''1. a'', ''- b'', ''c''])
         \<and> (\<forall>i < length items. \<exists>m.
               list_match ([''1. a'', ''- b'', ''c''] ! i) = Some m
               \<and> items ! i
                   = md_Node ListItem []
                       (if regex_match ol_regex ''1. a'' \<noteq> None then [(''ordered'', ''true'')]
                        else [])
                       (parse_inline_loop (m 2)) 0))"
proof -
  have h: "''1. a'' \<noteq> [] \<and> regex_match hr_regex ''1. a'' = None
    \<and> regex_match heading_regex ''1. a'' = None \<and> regex_match code_open_regex ''1. a'' = None
    \<and> regex_match quote_regex ''1. a'' = None \<and> list_match ''1. a'' \<noteq> None"
    by code_simp
  have v: "parse_block [''1. a'', ''- b'', ''c'']
       = ([md_Node List [] []
             [md_Node ListItem [] [(''ordered'', ''true'')] [md_Node Text ''a'' [] [] 0] 0,
              md_Node ListItem [] [(''ordered'', ''true'')] [md_Node Text ''b'' [] [] 0] 0] 0],
          [''c''])"
    by code_simp
  note w = conjunct2 [OF C8_list_block, rule_format, OF h, of "[''- b'', ''c'']"]
  from v w have "parse_block [''1. a'', ''- b'', ''c'']
       = ([md_Node List [] []
             [md_Node ListItem [] [(''ordered'', ''true'')] [md_Node Text ''a'' [] [] 0] 0,
              md_Node ListItem [] [(''ordered'', ''true'')] [md_Node Text ''b'' [] [] 0] 0] 0],
          [''c''])
   \<and> (\<exists>items.
         parse_block [''1. a'', ''- b'', ''c'']
           = ([md_Node List [] [] items 0],
              dropWhile (\<lambda>l. list_match l \<noteq> None) [''1. a'', ''- b'', ''c''])
         \<and> length items = length (takeWhile (\<lambda>l. list_match l \<noteq> None) [''1. a'', ''- b'', ''c''])
         \<and> (\<forall>i < length items. \<exists>m.
               list_match ([''1. a'', ''- b'', ''c''] ! i) = Some m
               \<and> items ! i
                   = md_Node ListItem []
                       (if regex_match ol_regex ''1. a'' \<noteq> None then [(''ordered'', ''true'')]
                        else [])
                       (parse_inline_loop (m 2)) 0))"
    by (rule conjI)
  with h show ?thesis
    by (rule conjI)
qed

end
